theory Spec2Isabelle
  imports Main "HOL-Library.Char_ord" "HOL-Library.List_Lexorder" "HOL-Library.Multiset"
begin

section \<open>Bytes, runes and spans\<close>

text \<open>
  A Go \<open>[]byte\<close> or \<open>string\<close> is a \<open>string\<close> here: a list of 8-bit characters.
  A rune is a natural number (the code point). A span is the pair of offsets
  \<open>(start, end)\<close> of a sub-slice of a buffer, which is what the regexp package
  hands out: the slices that \<open>FindAllSubmatch\<close> returns share the memory of
  the buffer that was searched.
\<close>

type_synonym rune = nat
type_synonym span = "nat \<times> nat"

definition slice :: "'a list \<Rightarrow> span \<Rightarrow> 'a list" where
  "slice b sp = take (snd sp - fst sp) (drop (fst sp) b)"

definition squote :: char where "squote = CHR 0x27"
definition dquote :: char where "dquote = CHR 0x22"
definition backslash :: char where "backslash = CHR 0x5C"
definition newline :: char where "newline = CHR 0x0A"

section \<open>Package unicode/utf8\<close>

definition RuneError :: rune where
  "RuneError = 0xFFFD"

text \<open>
  \<open>utf8.DecodeRune\<close>: the rune at the head of the bytes and its width. An
  invalid or truncated encoding decodes to \<open>(RuneError, 1)\<close>, the empty input to
  \<open>(RuneError, 0)\<close>. The case analysis on the first byte is the table
  \<open>first\<close> of the package with its accept ranges.
\<close>

fun DecodeRune :: "string \<Rightarrow> rune \<times> nat" where
  "DecodeRune [] = (RuneError, 0)"
| "DecodeRune (c # cs) =
    (let p0 = (of_char c :: nat) in
     if p0 < 0x80 then (p0, 1)
     else if p0 < 0xC2 \<or> 0xF4 < p0 then (RuneError, 1)
     else
       let sz = (if p0 < 0xE0 then 2 else if p0 < 0xF0 then 3 else (4::nat));
           lo = (if p0 = 0xE0 then 0xA0 else if p0 = 0xF0 then 0x90 else (0x80::nat));
           hi = (if p0 = 0xED then 0x9F else if p0 = 0xF4 then 0x8F else (0xBF::nat))
       in if length (c # cs) < sz then (RuneError, 1)
          else
            let b1 = (of_char (cs ! 0) :: nat) in
            if b1 < lo \<or> hi < b1 then (RuneError, 1)
            else if sz \<le> 2 then ((p0 mod 0x20) * 0x40 + b1 mod 0x40, 2)
            else
              let b2 = (of_char (cs ! 1) :: nat) in
              if b2 < 0x80 \<or> 0xBF < b2 then (RuneError, 1)
              else if sz \<le> 3
              then ((p0 mod 0x10) * 0x1000 + (b1 mod 0x40) * 0x40 + b2 mod 0x40, 3)
              else
                let b3 = (of_char (cs ! 2) :: nat) in
                if b3 < 0x80 \<or> 0xBF < b3 then (RuneError, 1)
                else ((p0 mod 0x08) * 0x40000 + (b1 mod 0x40) * 0x1000
                        + (b2 mod 0x40) * 0x40 + b3 mod 0x40, 4))"

text \<open>\<open>utf8.ValidRune\<close>: in range and not a surrogate half.\<close>

definition ValidRune :: "rune \<Rightarrow> bool" where
  "ValidRune r = (r < 0xD800 \<or> (0xDFFF < r \<and> r \<le> 0x10FFFF))"

text \<open>\<open>utf8.AppendRune\<close> to an empty buffer: the UTF-8 encoding of a rune.\<close>

definition EncodeRune :: "rune \<Rightarrow> string" where
  "EncodeRune r =
    (if r \<le> 0x7F then [char_of r]
     else if r \<le> 0x7FF then [char_of (0xC0 + r div 0x40), char_of (0x80 + r mod 0x40)]
     else
       let r' = (if 0x10FFFF < r \<or> (0xD800 \<le> r \<and> r \<le> 0xDFFF) then RuneError else r)
       in if r' \<le> 0xFFFF
          then [char_of (0xE0 + r' div 0x1000), char_of (0x80 + (r' div 0x40) mod 0x40),
                char_of (0x80 + r' mod 0x40)]
          else [char_of (0xF0 + r' div 0x40000), char_of (0x80 + (r' div 0x1000) mod 0x40),
                char_of (0x80 + (r' div 0x40) mod 0x40), char_of (0x80 + r' mod 0x40)])"

lemma DecodeRune_width:
  "s \<noteq> [] \<Longrightarrow> 1 \<le> snd (DecodeRune s) \<and> snd (DecodeRune s) \<le> length s"
  by (cases s) (auto simp: Let_def not_less Suc_le_eq)

lemma DecodeRune_drop_less:
  "s \<noteq> [] \<Longrightarrow> DecodeRune s = (r, w) \<Longrightarrow> length (drop w s) < length s"
  using DecodeRune_width [of s] by (cases s) auto

text \<open>
  \<open>utf8.ValidString\<close>: an ASCII byte is stepped over; any other byte must
  start a well-formed encoding, which is stepped over as a whole. A byte that
  is not ASCII decodes with width 1 exactly when no well-formed encoding starts
  there.
\<close>

function ValidString :: "string \<Rightarrow> bool" where
  "ValidString [] = True"
| "ValidString (c # cs) =
    (if (of_char c :: nat) < 0x80 then ValidString cs
     else if snd (DecodeRune (c # cs)) = 1 then False
     else ValidString (drop (snd (DecodeRune (c # cs))) (c # cs)))"
  by pat_completeness auto
termination
proof (relation "measure length")
  fix c :: char and cs :: string
  from DecodeRune_width [of "c # cs"]
  show "(drop (snd (DecodeRune (c # cs))) (c # cs), c # cs) \<in> measure length"
    by (simp del: DecodeRune.simps)
qed simp_all

section \<open>Package strconv: Unquote\<close>

text \<open>
  \<open>strconv.Unquote\<close> reads a Go string literal. Its only error is
  \<open>ErrSyntax\<close>, whose message is \<open>invalid syntax\<close>; the functions below return
  \<open>None\<close> for it.
\<close>

definition unhex :: "char \<Rightarrow> nat option" where
  "unhex c =
    (let b = (of_char c :: nat) in
     if 0x30 \<le> b \<and> b \<le> 0x39 then Some (b - 0x30)
     else if 0x61 \<le> b \<and> b \<le> 0x66 then Some (b - 0x61 + 10)
     else if 0x41 \<le> b \<and> b \<le> 0x46 then Some (b - 0x41 + 10)
     else None)"

text \<open>The loop \<open>v = v<<4 | x\<close> over the hexadecimal digits of an escape.\<close>

fun hexval :: "nat \<Rightarrow> string \<Rightarrow> nat option" where
  "hexval v [] = Some v"
| "hexval v (c # cs) = (case unhex c of None \<Rightarrow> None | Some x \<Rightarrow> hexval (v * 16 + x) cs)"

text \<open>The loop \<open>v = (v << 3) | x\<close> over the two further digits of an octal escape.\<close>

fun octval :: "nat \<Rightarrow> string \<Rightarrow> nat option" where
  "octval v [] = Some v"
| "octval v (c # cs) =
    (let b = (of_char c :: nat) in
     if b < 0x30 \<or> 0x37 < b then None else octval (v * 8 + (b - 0x30)) cs)"

text \<open>
  \<open>strconv.UnquoteChar\<close>: the first character or escape of \<open>s\<close>, whether it is
  to be written as UTF-8, and the rest of \<open>s\<close>. A rune is a 32-bit signed
  integer in Go; eight hexadecimal digits after \<open>\U\<close> can overflow it to a
  negative value, which \<open>ValidRune\<close> refuses, as it refuses the same digits read
  as a natural number above \<open>0x10FFFF\<close>.
\<close>

definition UnquoteChar :: "string \<Rightarrow> char \<Rightarrow> (rune \<times> bool \<times> string) option" where
  "UnquoteChar s quote =
    (case s of
       [] \<Rightarrow> None
     | c # s1 \<Rightarrow>
        if c = quote \<and> (quote = squote \<or> quote = dquote) then None
        else if 0x80 \<le> (of_char c :: nat)
        then (case DecodeRune s of (r, w) \<Rightarrow> Some (r, True, drop w s))
        else if c \<noteq> backslash then Some (of_char c, False, s1)
        else
          (case s1 of
             [] \<Rightarrow> None
           | c2 # s2 \<Rightarrow>
              if c2 = CHR ''a'' then Some (7, False, s2)
              else if c2 = CHR ''b'' then Some (8, False, s2)
              else if c2 = CHR ''f'' then Some (12, False, s2)
              else if c2 = CHR ''n'' then Some (10, False, s2)
              else if c2 = CHR ''r'' then Some (13, False, s2)
              else if c2 = CHR ''t'' then Some (9, False, s2)
              else if c2 = CHR ''v'' then Some (11, False, s2)
              else if c2 = CHR ''x'' \<or> c2 = CHR ''u'' \<or> c2 = CHR ''U'' then
                (let n = (if c2 = CHR ''x'' then 2 else if c2 = CHR ''u'' then 4 else (8::nat)) in
                 if length s2 < n then None
                 else case hexval 0 (take n s2) of
                        None \<Rightarrow> None
                      | Some v \<Rightarrow>
                          if c2 = CHR ''x'' then Some (v, False, drop n s2)
                          else if \<not> ValidRune v then None
                          else Some (v, True, drop n s2))
              else if 0x30 \<le> (of_char c2 :: nat) \<and> (of_char c2 :: nat) \<le> 0x37 then
                (if length s2 < 2 then None
                 else case octval (of_char c2 - 0x30) (take 2 s2) of
                        None \<Rightarrow> None
                      | Some v \<Rightarrow> if 255 < v then None else Some (v, False, drop 2 s2))
              else if c2 = backslash then Some (0x5C, False, s2)
              else if c2 = squote \<or> c2 = dquote then
                (if c2 \<noteq> quote then None else Some (of_char c2, False, s2))
              else None))"

lemma UnquoteChar_shorter:
  "UnquoteChar s quote = Some (r, mb, rest) \<Longrightarrow> length rest < length s"
  by (auto simp: UnquoteChar_def Let_def split: list.splits if_splits option.splits prod.splits
           dest!: DecodeRune_drop_less [rotated])

text \<open>\<open>strings.IndexByte\<close>: the offset of the first occurrence of a byte.\<close>

fun IndexByte :: "string \<Rightarrow> char \<Rightarrow> nat option" where
  "IndexByte [] c = None"
| "IndexByte (x # xs) c = (if x = c then Some 0 else map_option Suc (IndexByte xs c))"

text \<open>
  The loop of \<open>strconv.unquote\<close> over a quoted string with escapes: \<open>s\<close> is
  what is left after the opening quote and \<open>buf\<close> what has been decoded. It
  stops before the closing quote (or at the end of \<open>s\<close>) and returns the
  buffer with what is left; a single-quoted literal holds one character, so
  its loop stops after one round.
\<close>

function unquote_loop :: "char \<Rightarrow> string \<Rightarrow> string \<Rightarrow> (string \<times> string) option" where
  "unquote_loop quote s buf =
    (if s \<noteq> [] \<and> hd s \<noteq> quote then
       (case UnquoteChar s quote of
          None \<Rightarrow> None
        | Some (r, multibyte, rest) \<Rightarrow>
            if hd s = newline then None
            else
              let buf' = (if r < 0x80 \<or> \<not> multibyte then buf @ [char_of r]
                          else buf @ EncodeRune r)
              in if quote = squote then Some (buf', rest)
                 else unquote_loop quote rest buf')
     else Some (buf, s))"
  by pat_completeness auto
termination
  by (relation "measure (\<lambda>(quote, s, buf). length s)") (auto dest: UnquoteChar_shorter)

text \<open>
  \<open>strconv.Unquote\<close>. The terminating quote is looked for first; a literal
  with no backslash and no newline before it, and valid UTF-8 inside, is returned
  as it stands; otherwise the loop decodes it. What follows the terminating
  quote must be empty. A backquoted literal is raw, with its carriage returns
  dropped.
\<close>

definition Unquote :: "string \<Rightarrow> string option" where
  "Unquote s =
    (if length s < 2 then None
     else
       let quote = hd s in
       case IndexByte (tl s) quote of
         None \<Rightarrow> None
       | Some e \<Rightarrow>
          let stop = e + 2 in
          if quote = CHR 0x60 then
            (if drop stop s \<noteq> [] then None
             else Some (filter (\<lambda>c. c \<noteq> CHR 0x0D) (slice s (1, stop - 1))))
          else if quote = dquote \<or> quote = squote then
            (if backslash \<notin> set (take stop s) \<and> newline \<notin> set (take stop s) \<and>
                (if quote = dquote then ValidString (slice s (1, stop - 1))
                 else case DecodeRune (slice s (1, stop - 1)) of
                        (r, n) \<Rightarrow> 1 + n + 1 = stop \<and> (r \<noteq> RuneError \<or> n \<noteq> 1))
             then (if drop stop s \<noteq> [] then None else Some (slice s (1, stop - 1)))
             else
               (case unquote_loop quote (tl s) [] of
                  None \<Rightarrow> None
                | Some (buf, rest) \<Rightarrow>
                    if \<not> (rest \<noteq> [] \<and> hd rest = quote) then None
                    else if tl rest \<noteq> [] then None
                    else Some buf))
          else None)"

section \<open>Packages strings, bytes and sort\<close>

text \<open>
  \<open>strings.ToLower\<close> has a path of its own for a string of ASCII bytes, which
  is modelled in full. Any other string is mapped rune by rune through the
  case tables of package \<open>unicode\<close>; that mapping,
  \<open>strings.Map(unicode.ToLower, s)\<close>, is the parameter \<open>unicodeLower\<close>.
\<close>

definition isASCII :: "string \<Rightarrow> bool" where
  "isASCII s = list_all (\<lambda>c. (of_char c :: nat) < 0x80) s"

definition lowerByte :: "char \<Rightarrow> char" where
  "lowerByte c =
    (if 0x41 \<le> (of_char c :: nat) \<and> (of_char c :: nat) \<le> 0x5A
     then char_of (of_char c + (0x20 :: nat)) else c)"

definition ToLower :: "(string \<Rightarrow> string) \<Rightarrow> string \<Rightarrow> string" where
  "ToLower unicodeLower s = (if isASCII s then map lowerByte s else unicodeLower s)"

lemma IndexByte_less: "IndexByte s c = Some m \<Longrightarrow> m < length s"
  by (induction s arbitrary: m) (auto split: if_splits)

text \<open>
  \<open>bytes.Split\<close> on a separator of one byte: the pieces between its
  occurrences, one piece more than there are separators. Every piece but the
  last is returned with its capacity cut to its length, so appending to it
  reallocates and leaves the split buffer as it is.
\<close>

function Split :: "string \<Rightarrow> char \<Rightarrow> string list" where
  "Split s sep =
    (case IndexByte s sep of
       None \<Rightarrow> [s]
     | Some m \<Rightarrow> take m s # Split (drop (m + 1) s) sep)"
  by pat_completeness auto
termination
  by (relation "measure (\<lambda>(s, sep). length s)") (auto dest: IndexByte_less)

text \<open>\<open>bytes.Join\<close> with a separator of one byte.\<close>

fun Join :: "string list \<Rightarrow> char \<Rightarrow> string" where
  "Join [] sep = []"
| "Join [p] sep = p"
| "Join (p # ps) sep = p @ sep # Join ps sep"

text \<open>
  \<open>sort.Strings\<close> sorts in increasing order of Go's \<open><\<close> on strings, which
  compares byte by byte: the lexicographic order on lists of characters ordered
  by their codes. Equal strings are indistinguishable, so the sorted list is
  unique and insertion sort computes it.
\<close>

definition Strings :: "string list \<Rightarrow> string list" where
  "Strings xs = sort xs"

section \<open>Package regexp\<close>

text \<open>
  The syntax tree of the patterns this program compiles. \<open>Star g r\<close> is
  \<open>r*\<close> when \<open>g\<close> holds and the non-greedy \<open>r*?\<close> otherwise, likewise
  \<open>Quest\<close>; \<open>Cap i r\<close> is the capturing group number \<open>i\<close>; \<open>AnyNotNL\<close> is
  \<open>.\<close> (without the flag \<open>s\<close>), \<open>Space\<close> is \<open>\s\<close>, and \<open>BeginLine\<close> is
  \<open>^\<close> under the flag \<open>m\<close>.
\<close>

datatype regex =
    Lit char
  | AnyNotNL
  | Space
  | BeginLine
  | EmptyMatch
  | NoMatch
  | Seq regex regex
  | Alt regex regex
  | Star bool regex
  | Quest bool regex
  | Cap nat regex

definition Plus :: "bool \<Rightarrow> regex \<Rightarrow> regex" where
  "Plus g r = Seq r (Star g r)"

fun seqs :: "regex list \<Rightarrow> regex" where
  "seqs [] = EmptyMatch"
| "seqs [r] = r"
| "seqs (r # rs) = Seq r (seqs rs)"

fun alts :: "regex list \<Rightarrow> regex" where
  "alts [] = NoMatch"
| "alts [r] = r"
| "alts (r # rs) = Alt r (alts rs)"

definition lits :: "string \<Rightarrow> regex" where
  "lits cs = seqs (map Lit cs)"

primrec NumSubexp :: "regex \<Rightarrow> nat" where
  "NumSubexp (Lit c) = 0"
| "NumSubexp AnyNotNL = 0"
| "NumSubexp Space = 0"
| "NumSubexp BeginLine = 0"
| "NumSubexp EmptyMatch = 0"
| "NumSubexp NoMatch = 0"
| "NumSubexp (Seq a b) = max (NumSubexp a) (NumSubexp b)"
| "NumSubexp (Alt a b) = max (NumSubexp a) (NumSubexp b)"
| "NumSubexp (Star g a) = NumSubexp a"
| "NumSubexp (Quest g a) = NumSubexp a"
| "NumSubexp (Cap i a) = max i (NumSubexp a)"

text \<open>
  A thread of the matcher: the offset reached in the input and the spans of
  the groups captured on the way (\<open>None\<close> for a group that has not taken
  part).
\<close>

type_synonym thread = "nat \<times> span option list"

text \<open>
  The input is read rune by rune: \<open>step\<close> is the rune at an offset and its
  width, \<open>None\<close> at the end of the text.
\<close>

definition step :: "string \<Rightarrow> nat \<Rightarrow> (rune \<times> nat) option" where
  "step s pos = (if pos < length s then Some (DecodeRune (drop pos s)) else None)"

definition one :: "(rune \<Rightarrow> bool) \<Rightarrow> string \<Rightarrow> thread \<Rightarrow> thread list" where
  "one ok s t =
    (case step s (fst t) of
       None \<Rightarrow> []
     | Some (r, w) \<Rightarrow> if ok r then [(fst t + w, snd t)] else [])"

definition isSpace :: "rune \<Rightarrow> bool" where
  "isSpace r = (r = 9 \<or> r = 10 \<or> r = 12 \<or> r = 13 \<or> r = 32)"

text \<open>
  The regexp package returns the match that begins leftmost and, among those,
  the one a backtracking search finds first. \<open>run r s t\<close> is that search: the
  threads that leave \<open>r\<close> when \<open>t\<close> enters it, in the order in which the
  search reaches them. Its matcher simulates all threads in that order of
  priority and drops a thread that reaches a state a thread of higher priority
  has reached at the same offset; \<open>star_loop\<close> does so at the head of a loop:
  the offsets in \<open>seen\<close> have been explored, and a thread that comes back to
  one of them is dropped. What follows a loop does not depend on the captured
  spans, so the first match found is the one of the plain backtracking search.
  An offset is never beyond the length \<open>n\<close> of the input.
\<close>

datatype work = Explore thread | Yield thread

lemma card_unseen_pos:
  "p \<le> n \<Longrightarrow> p \<notin> set seen \<Longrightarrow> 0 < card ({..n::nat} - set seen)"
  by (rule card_gt_0_iff [THEN iffD2]) auto

function star_loop ::
  "(thread \<Rightarrow> thread list) \<Rightarrow> bool \<Rightarrow> nat \<Rightarrow> work list \<Rightarrow> nat list \<Rightarrow> thread list" where
  "star_loop f g n [] seen = []"
| "star_loop f g n (Yield t # ws) seen = t # star_loop f g n ws seen"
| "star_loop f g n (Explore t # ws) seen =
     (if fst t \<in> set seen \<or> n < fst t then star_loop f g n ws seen
      else star_loop f g n
             ((if g then map Explore (f t) @ [Yield t] else Yield t # map Explore (f t)) @ ws)
             (fst t # seen))"
  by pat_completeness auto
termination
  by (relation "measures [\<lambda>(f, g, n, ws, seen). card ({..n} - set seen),
                          \<lambda>(f, g, n, ws, seen). length ws]")
     (auto simp add: card_unseen_pos not_less)

primrec run :: "regex \<Rightarrow> string \<Rightarrow> thread \<Rightarrow> thread list" where
  "run (Lit c) s t = one (\<lambda>r. r = of_char c) s t"
| "run AnyNotNL s t = one (\<lambda>r. r \<noteq> 10) s t"
| "run Space s t = one isSpace s t"
| "run BeginLine s t = (if fst t = 0 \<or> s ! (fst t - 1) = newline then [t] else [])"
| "run EmptyMatch s t = [t]"
| "run NoMatch s t = []"
| "run (Seq a b) s t = concat (map (run b s) (run a s t))"
| "run (Alt a b) s t = run a s t @ run b s t"
| "run (Star g a) s t = star_loop (run a s) g (length s) [Explore t] []"
| "run (Quest g a) s t = (if g then run a s t @ [t] else t # run a s t)"
| "run (Cap i a) s t =
     map (\<lambda>t'. (fst t', (snd t')[i := Some (fst t, fst t')])) (run a s t)"

fun thread_of :: "work \<Rightarrow> thread" where
  "thread_of (Explore t) = t"
| "thread_of (Yield t) = t"

lemma star_loop_invariant:
  "(\<And>t t'. Q t \<Longrightarrow> t' \<in> set (f t) \<Longrightarrow> Q t') \<Longrightarrow>
   (\<And>w. w \<in> set ws \<Longrightarrow> Q (thread_of w)) \<Longrightarrow>
   t \<in> set (star_loop f g n ws seen) \<Longrightarrow> Q t"
proof (induction f g n ws seen rule: star_loop.induct)
  case (1 f g n seen)
  then show ?case by simp
next
  case (2 f g n u ws seen)
  have "Q u" using "2.prems"(2) [of "Yield u"] by simp
  moreover have "Q t" if "t \<in> set (star_loop f g n ws seen)"
    using "2.IH" "2.prems"(1,2) that by simp
  ultimately show ?case using "2.prems"(3) by auto
next
  case (3 f g n u ws seen)
  note step = "3.prems"(1)
  show ?case
  proof (cases "fst u \<in> set seen \<or> n < fst u")
    case True
    with 3 show ?thesis by auto
  next
    case False
    have Qu: "Q u" using "3.prems"(2) [of "Explore u"] by simp
    have "Q (thread_of w)"
      if "w \<in> set ((if g then map Explore (f u) @ [Yield u] else Yield u # map Explore (f u)) @ ws)"
      for w
    proof -
      from that consider "w \<in> Explore ` set (f u)" | "w = Yield u" | "w \<in> set ws"
        by (auto split: if_splits)
      then show ?thesis
      proof cases
        case 1
        then obtain v where "v \<in> set (f u)" "w = Explore v" by auto
        with step [OF Qu] show ?thesis by simp
      next
        case 2
        with Qu show ?thesis by simp
      next
        case 3
        then show ?thesis using "3.prems"(2) [of w] by simp
      qed
    qed
    with "3.IH"(2) [OF False step] "3.prems"(3) False show ?thesis by auto
  qed
qed

lemma step_bounds:
  "step s p = Some (r, w) \<Longrightarrow> p < length s \<and> 1 \<le> w \<and> p + w \<le> length s"
  using DecodeRune_width [of "drop p s"] by (auto simp: step_def split: if_splits)

lemma one_bounds: "t' \<in> set (one ok s t) \<Longrightarrow> fst t < fst t' \<and> fst t' \<le> length s \<and> snd t' = snd t"
  by (auto simp: one_def split: option.splits if_splits dest!: step_bounds [OF sym])

lemma run_mono: "t' \<in> set (run r s t) \<Longrightarrow> fst t \<le> fst t'"
proof (induction r arbitrary: t t')
  case (Star g r)
  from Star.prems have mem: "t' \<in> set (star_loop (run r s) g (length s) [Explore t] [])"
    by simp
  show ?case
  proof (rule star_loop_invariant [where Q = "\<lambda>u. fst t \<le> fst u", OF _ _ mem])
    fix u u' assume "fst t \<le> fst u" "u' \<in> set (run r s u)"
    with Star.IH [of u' u] show "fst t \<le> fst u'" by simp
  next
    fix w assume "w \<in> set [Explore t]"
    then show "fst t \<le> fst (thread_of w)" by simp
  qed
qed (fastforce dest: one_bounds split: if_splits)+

section \<open>Searching: doExecute and FindAllSubmatch\<close>

text \<open>
  \<open>doExecute\<close> is the unanchored search from an offset: the first offset, rune
  by rune, at which the pattern matches, and there the first thread of the
  search. It returns the span of the whole match and the spans of the groups,
  the whole match in the slot 0 of the list.
\<close>

function doExecute :: "regex \<Rightarrow> string \<Rightarrow> nat \<Rightarrow> (span \<times> span option list) option" where
  "doExecute re s pos =
    (case run re s (pos, replicate (Suc (NumSubexp re)) None) of
       t # ts \<Rightarrow> Some ((pos, fst t), (snd t)[0 := Some (pos, fst t)])
     | [] \<Rightarrow>
        (case step s pos of
           None \<Rightarrow> None
         | Some (r, w) \<Rightarrow> doExecute re s (pos + w)))"
  by pat_completeness auto
termination
  by (relation "measure (\<lambda>(re, s, pos). length s - pos)") (auto dest!: step_bounds)

declare doExecute.simps [simp del]

lemma doExecute_bounds:
  "doExecute re s pos = Some ((b, e), m) \<Longrightarrow> pos \<le> b \<and> b \<le> e"
proof (induction re s pos rule: doExecute.induct)
  case (1 re s pos)
  show ?case
  proof (cases "run re s (pos, replicate (Suc (NumSubexp re)) None)")
    case Nil
    with "1.prems" obtain r w where st: "step s pos = Some (r, w)"
      and ex: "doExecute re s (pos + w) = Some ((b, e), m)"
      by (subst (asm) doExecute.simps) (auto split: option.splits)
    from "1.IH" [OF Nil st refl ex] show ?thesis by simp
  next
    case (Cons t ts)
    then have "t \<in> set (run re s (pos, replicate (Suc (NumSubexp re)) None))" by simp
    from run_mono [OF this] Cons "1.prems" show ?thesis
      by (subst (asm) doExecute.simps) auto
  qed
qed

text \<open>
  The loop of \<open>Regexp.allMatches\<close>, which \<open>FindAllSubmatch\<close> runs with
  \<open>n = len(b) + 1\<close>: the successive matches, each searched from the end of the
  one before. An empty match moves the search on by one rune and is not
  delivered when it abuts the match before it.
\<close>

function allMatches ::
  "regex \<Rightarrow> string \<Rightarrow> nat \<Rightarrow> nat \<Rightarrow> nat \<Rightarrow> nat option \<Rightarrow> span option list list" where
  "allMatches re s n i pos prevMatchEnd =
    (if i < n \<and> pos \<le> length s then
       (case doExecute re s pos of
          None \<Rightarrow> []
        | Some ((b, e), m) \<Rightarrow>
            if e = pos then
              (let pos' = (case step s pos of Some (r, w) \<Rightarrow> pos + w | None \<Rightarrow> length s + 1)
               in if Some b = prevMatchEnd
                  then allMatches re s n i pos' (Some e)
                  else m # allMatches re s n (i + 1) pos' (Some e))
            else m # allMatches re s n (i + 1) e (Some e))
     else [])"
  by pat_completeness auto
termination
  by (relation "measure (\<lambda>(re, s, n, i, pos, prev). length s + 1 - pos)")
     (auto dest!: doExecute_bounds step_bounds split: option.splits)

declare allMatches.simps [simp del]

definition FindAllSubmatchIndex :: "regex \<Rightarrow> string \<Rightarrow> span option list list" where
  "FindAllSubmatchIndex re b = allMatches re b (length b + 1) 0 0 None"

section \<open>Invariants of the matcher\<close>

lemma run_le_length: "t' \<in> set (run r s t) \<Longrightarrow> fst t \<le> length s \<Longrightarrow> fst t' \<le> length s"
proof (induction r arbitrary: t t')
  case (Star g r)
  from Star.prems have mem: "t' \<in> set (star_loop (run r s) g (length s) [Explore t] [])"
    by simp
  show ?case
  proof (rule star_loop_invariant [where Q = "\<lambda>u. fst u \<le> length s", OF _ _ mem])
    fix u u' assume "fst u \<le> length s" "u' \<in> set (run r s u)"
    with Star.IH [of u' u] show "fst u' \<le> length s" by simp
  next
    fix w assume "w \<in> set [Explore t]"
    with Star.prems show "fst (thread_of w) \<le> length s" by simp
  qed
qed (fastforce dest: one_bounds split: if_splits)+

lemma run_length_caps: "t' \<in> set (run r s t) \<Longrightarrow> length (snd t') = length (snd t)"
proof (induction r arbitrary: t t')
  case (Star g r)
  from Star.prems have mem: "t' \<in> set (star_loop (run r s) g (length s) [Explore t] [])"
    by simp
  show ?case
  proof (rule star_loop_invariant [where Q = "\<lambda>u. length (snd u) = length (snd t)", OF _ _ mem])
    fix u u' assume "length (snd u) = length (snd t)" "u' \<in> set (run r s u)"
    with Star.IH [of u' u] show "length (snd u') = length (snd t)" by simp
  next
    fix w assume "w \<in> set [Explore t]"
    then show "length (snd (thread_of w)) = length (snd t)" by simp
  qed
qed (fastforce dest: one_bounds split: if_splits)+

text \<open>
  Every captured span lies between the offset \<open>lo\<close> where the search started
  and the offset the thread has reached.
\<close>

definition within :: "nat \<Rightarrow> thread \<Rightarrow> bool" where
  "within lo t =
    (lo \<le> fst t \<and> list_all (\<lambda>sp. case sp of None \<Rightarrow> True
                                    | Some (a, b) \<Rightarrow> lo \<le> a \<and> a \<le> b \<and> b \<le> fst t) (snd t))"

lemma within_mono: "within lo t \<Longrightarrow> fst t \<le> p \<Longrightarrow> within lo (p, snd t)"
  by (auto simp: within_def list_all_iff split: option.splits)

lemma within_update:
  "within lo u \<Longrightarrow> lo \<le> a \<Longrightarrow> a \<le> fst u \<Longrightarrow> within lo (fst u, (snd u)[i := Some (a, fst u)])"
  by (auto simp: within_def list_all_iff split: option.splits dest!: set_update_subset_insert [THEN subsetD])

lemma one_within: "t' \<in> set (one ok s t) \<Longrightarrow> within lo t \<Longrightarrow> within lo t'"
proof -
  assume a: "t' \<in> set (one ok s t)" and w: "within lo t"
  from one_bounds [OF a] have "fst t \<le> fst t'" "t' = (fst t', snd t)"
    by (auto simp: prod_eq_iff)
  with within_mono [OF w, of "fst t'"] show ?thesis by simp
qed

lemma run_within: "t' \<in> set (run r s t) \<Longrightarrow> within lo t \<Longrightarrow> within lo t'"
proof (induction r arbitrary: t t')
  case (Lit c)
  then show ?case by (auto dest: one_within)
next
  case AnyNotNL
  then show ?case by (auto dest: one_within)
next
  case Space
  then show ?case by (auto dest: one_within)
next
  case (Star g r)
  from Star.prems have mem: "t' \<in> set (star_loop (run r s) g (length s) [Explore t] [])"
    by simp
  show ?case
  proof (rule star_loop_invariant [where Q = "within lo", OF _ _ mem])
    fix u u' assume "within lo u" "u' \<in> set (run r s u)"
    with Star.IH [of u' u] show "within lo u'" by simp
  next
    fix w assume "w \<in> set [Explore t]"
    with Star.prems show "within lo (thread_of w)" by simp
  qed
next
  case (Cap i r)
  then obtain u where u: "u \<in> set (run r s t)" and t': "t' = (fst u, (snd u)[i := Some (fst t, fst u)])"
    by auto
  from Cap.IH [OF u Cap.prems(2)] have "within lo u" .
  moreover from Cap.prems(2) have "lo \<le> fst t" by (simp add: within_def)
  moreover from run_mono [OF u] have "fst t \<le> fst u" .
  ultimately show ?case unfolding t' by (rule within_update)
qed (fastforce split: if_splits)+

text \<open>A match as \<open>doExecute\<close> returns it: its groups lie inside the whole match.\<close>

definition spans_in :: "nat \<Rightarrow> nat \<Rightarrow> span option list \<Rightarrow> bool" where
  "spans_in b e m =
    list_all (\<lambda>sp. case sp of None \<Rightarrow> True | Some (a, c) \<Rightarrow> b \<le> a \<and> a \<le> c \<and> c \<le> e) m"

lemma within_init: "within pos (pos, replicate n None)"
  by (simp add: within_def list_all_iff)

lemma spans_in_whole: "within b t \<Longrightarrow> spans_in b (fst t) ((snd t)[0 := Some (b, fst t)])"
  by (auto simp: within_def spans_in_def list_all_iff split: option.splits
           dest!: set_update_subset_insert [THEN subsetD])

lemma doExecute_result:
  "doExecute re s pos = Some ((b, e), m) \<Longrightarrow> pos \<le> length s \<Longrightarrow>
     pos \<le> b \<and> b \<le> e \<and> e \<le> length s \<and> spans_in b e m
     \<and> length m = Suc (NumSubexp re) \<and> m ! 0 = Some (b, e)"
proof (induction re s pos rule: doExecute.induct)
  case (1 re s pos)
  let ?init = "(pos, replicate (Suc (NumSubexp re)) None) :: thread"
  show ?case
  proof (cases "run re s ?init")
    case Nil
    with "1.prems" obtain r w where st: "step s pos = Some (r, w)"
      and ex: "doExecute re s (pos + w) = Some ((b, e), m)"
      by (subst (asm) doExecute.simps) (auto split: option.splits)
    from step_bounds [OF st] have "pos + w \<le> length s" by simp
    from "1.IH" [OF Nil st refl ex this] show ?thesis by simp
  next
    case (Cons t ts)
    then have mem: "t \<in> set (run re s ?init)" by simp
    from Cons "1.prems"(1) have b: "b = pos" and e: "e = fst t"
      and m: "m = (snd t)[0 := Some (pos, fst t)]"
      by (subst (asm) doExecute.simps, simp)+
    from run_within [OF mem within_init] have w: "within pos t" .
    from run_le_length [OF mem] "1.prems"(2) have "fst t \<le> length s" by simp
    moreover from run_mono [OF mem] have "pos \<le> fst t" by simp
    moreover from run_length_caps [OF mem] have "length (snd t) = Suc (NumSubexp re)" by simp
    moreover from spans_in_whole [OF w] have "spans_in pos (fst t) ((snd t)[0 := Some (pos, fst t)])" .
    ultimately show ?thesis unfolding b e m by simp
  qed
qed

text \<open>
  The matches of \<open>allMatches\<close> follow one another in the input: each starts at
  or after the end of the one before, and none ends beyond \<open>hi\<close>.
\<close>

fun ordered_from :: "nat \<Rightarrow> nat \<Rightarrow> span option list list \<Rightarrow> bool" where
  "ordered_from lo hi [] = True"
| "ordered_from lo hi (m # ms) =
    (case m ! 0 of
       None \<Rightarrow> False
     | Some (b, e) \<Rightarrow> lo \<le> b \<and> e \<le> hi \<and> spans_in b e m \<and> ordered_from e hi ms)"

lemma ordered_from_mono: "ordered_from lo hi ms \<Longrightarrow> lo' \<le> lo \<Longrightarrow> ordered_from lo' hi ms"
  by (cases ms) (auto split: option.splits)

definition nextPos :: "string \<Rightarrow> nat \<Rightarrow> nat" where
  "nextPos s pos = (case step s pos of Some (r, w) \<Rightarrow> pos + w | None \<Rightarrow> length s + 1)"

lemma allMatches_stop:
  "\<not> (i < n \<and> pos \<le> length s) \<Longrightarrow> allMatches re s n i pos prev = []"
  by (subst allMatches.simps) auto

lemma allMatches_none:
  "doExecute re s pos = None \<Longrightarrow> allMatches re s n i pos prev = []"
  by (subst allMatches.simps) auto

lemma allMatches_some:
  "i < n \<Longrightarrow> pos \<le> length s \<Longrightarrow> doExecute re s pos = Some ((b, e), m) \<Longrightarrow>
   allMatches re s n i pos prev =
     (if e = pos then
        (if Some b = prev then allMatches re s n i (nextPos s pos) (Some e)
         else m # allMatches re s n (i + 1) (nextPos s pos) (Some e))
      else m # allMatches re s n (i + 1) e (Some e))"
  by (subst allMatches.simps) (auto simp: nextPos_def Let_def)

lemma nextPos_greater: "pos \<le> length s \<Longrightarrow> pos < nextPos s pos"
  by (auto simp: nextPos_def split: option.splits dest!: step_bounds)

lemma allMatches_ordered:
  "ordered_from pos (length s) (allMatches re s n i pos prev)"
proof (induction re s n i pos prev rule: allMatches.induct)
  case (1 re s n i pos prev)
  show ?case
  proof (cases "i < n \<and> pos \<le> length s")
    case False
    then show ?thesis by (simp add: allMatches_stop)
  next
    case True
    show ?thesis
    proof (cases "doExecute re s pos")
      case None
      then show ?thesis by (simp add: allMatches_none)
    next
      case (Some res)
      obtain b e m where res: "res = ((b, e), m)" by (cases res) auto
      note ex = Some [unfolded res]
      from doExecute_result [OF ex] True
      have bnd: "pos \<le> b" "b \<le> e" "e \<le> length s" "spans_in b e m" "m ! 0 = Some (b, e)"
        by simp_all
      note unf = allMatches_some [OF conjunct1 [OF True] conjunct2 [OF True] ex]
      show ?thesis
      proof (cases "e = pos")
        case False
        from "1.IH"(3) [OF True ex refl refl False]
        have "ordered_from e (length s) (allMatches re s n (i + 1) e (Some e))" .
        with False bnd show ?thesis by (simp add: unf)
      next
        case epos: True
        have pos': "nextPos s pos = (case step s pos of Some (r, w) \<Rightarrow> pos + w | None \<Rightarrow> length s + 1)"
          by (simp add: nextPos_def)
        have le: "e \<le> nextPos s pos"
          using epos nextPos_greater [of pos s] True by simp
        show ?thesis
        proof (cases "Some b = prev")
          case same: True
          from "1.IH"(1) [OF True ex refl refl epos pos' same]
          have "ordered_from (nextPos s pos) (length s) (allMatches re s n i (nextPos s pos) (Some e))" .
          from ordered_from_mono [OF this] le epos
          have "ordered_from pos (length s) (allMatches re s n i (nextPos s pos) (Some e))" by simp
          with epos same show ?thesis by (simp add: unf)
        next
          case diff: False
          from "1.IH"(2) [OF True ex refl refl epos pos' diff]
          have "ordered_from (nextPos s pos) (length s) (allMatches re s n (i + 1) (nextPos s pos) (Some e))" .
          from ordered_from_mono [OF this le]
          have "ordered_from e (length s) (allMatches re s n (i + 1) (nextPos s pos) (Some e))" .
          with epos diff bnd show ?thesis by (simp add: unf)
        qed
      qed
    qed
  qed
qed

lemma allMatches_length:
  "m \<in> set (allMatches re s n i pos prev) \<Longrightarrow> length m = Suc (NumSubexp re)"
proof (induction re s n i pos prev rule: allMatches.induct)
  case (1 re s n i pos prev)
  show ?case
  proof (cases "i < n \<and> pos \<le> length s")
    case False
    with "1.prems" show ?thesis by (simp add: allMatches_stop)
  next
    case True
    show ?thesis
    proof (cases "doExecute re s pos")
      case None
      with "1.prems" show ?thesis by (simp add: allMatches_none)
    next
      case (Some res)
      obtain b e m0 where res: "res = ((b, e), m0)" by (cases res) auto
      note ex = Some [unfolded res]
      from doExecute_result [OF ex] True
      have len: "length m0 = Suc (NumSubexp re)" by simp
      note unf = allMatches_some [OF conjunct1 [OF True] conjunct2 [OF True] ex]
      have pos': "nextPos s pos = (case step s pos of Some (r, w) \<Rightarrow> pos + w | None \<Rightarrow> length s + 1)"
        by (simp add: nextPos_def)
      from "1.prems" consider "m = m0"
        | "e \<noteq> pos" "m \<in> set (allMatches re s n (i + 1) e (Some e))"
        | "e = pos" "Some b = prev" "m \<in> set (allMatches re s n i (nextPos s pos) (Some e))"
        | "e = pos" "Some b \<noteq> prev" "m \<in> set (allMatches re s n (i + 1) (nextPos s pos) (Some e))"
        by (auto simp: unf split: if_splits)
      then show ?thesis
      proof cases
        case 1
        with len show ?thesis by simp
      next
        case 2
        from "1.IH"(3) [OF True ex refl refl 2] show ?thesis .
      next
        case 3
        from "1.IH"(1) [OF True ex refl refl 3(1) pos' 3(2,3)] show ?thesis .
      next
        case 4
        from "1.IH"(2) [OF True ex refl refl 4(1) pos' 4(2,3)] show ?thesis .
      qed
    qed
  qed
qed

section \<open>The import pattern (compileJsImportPattern)\<close>

definition IMPORT :: nat where "IMPORT = 1"
definition REQUIRE :: nat where "REQUIRE = 2"
definition EXPORT :: nat where "EXPORT = 3"
definition JEST_MOCK :: nat where "JEST_MOCK = 4"
definition JEST_REQUIRE_ACTUAL :: nat where "JEST_REQUIRE_ACTUAL = 5"
definition REQUIRE_RESOLVE :: nat where "REQUIRE_RESOLVE = 6"
definition JEST_CREATE_MOCK_FROM_MODULE :: nat where "JEST_CREATE_MOCK_FROM_MODULE = 7"

text \<open>\<open>charactersPattern\<close> is \<open>.+\<close>.\<close>

definition charactersPattern :: regex where
  "charactersPattern = Plus True AnyNotNL"

text \<open>
  \<open>stringLiteralPattern\<close> is the text \<open>'(?:.+|")*'|"(?:.+|')*"\<close>: two
  alternatives. The source pastes this text into each pattern, so what a
  pattern writes after it continues the second alternative.
\<close>

definition singleQuoted :: regex where
  "singleQuoted = seqs [Lit squote, Star True (Alt charactersPattern (Lit dquote)), Lit squote]"

definition doubleQuoted :: regex where
  "doubleQuoted = seqs [Lit dquote, Star True (Alt charactersPattern (Lit squote)), Lit dquote]"

definition stringLiteralPattern :: regex where
  "stringLiteralPattern = Alt singleQuoted doubleQuoted"

text \<open>The optional \<open>(?:const .+ = )?\<close> that five of the patterns share.\<close>

definition constPrefix :: regex where
  "constPrefix = Quest True (seqs [lits ''const '', charactersPattern, lits '' = ''])"

text \<open>The non-greedy optional \<open>(?:(?:.|\n)+?from )??\<close> of import and export.\<close>

definition fromClause :: regex where
  "fromClause = Quest False (seqs [Plus False (Alt AnyNotNL (Lit newline)), lits ''from ''])"

text \<open>\<open>(?m)^import\s(?:(?:.|\n)+?from )??(?P<import>LITERAL).*?\<close>\<close>

definition importPattern :: regex where
  "importPattern =
    seqs [BeginLine, lits ''import'', Space, fromClause,
          Cap IMPORT stringLiteralPattern, Star False AnyNotNL]"

text \<open>\<open>(?m)^\s*?(?:const .+ = )?require\((?P<require>LITERAL)\).*\<close>\<close>

definition requirePattern :: regex where
  "requirePattern =
    seqs [BeginLine, Star False Space, constPrefix, lits ''require('',
          Cap REQUIRE stringLiteralPattern, Lit CHR '')'', Star True AnyNotNL]"

text \<open>\<open>(?m)^export\s(?:(?:.|\n)+?from )??(?P<export>LITERAL).*?\<close>\<close>

definition exportPattern :: regex where
  "exportPattern =
    seqs [BeginLine, lits ''export'', Space, fromClause,
          Cap EXPORT stringLiteralPattern, Star False AnyNotNL]"

text \<open>
  \<open>(?m)^\s*?(?:const .+ = )?jest.mock\((?P<jestMock>LITERAL,*)*\<close>: the group
  is starred, and \<open>,*\<close> follows the double-quoted alternative only. The dot
  of \<open>jest.mock\<close> is not escaped: it stands for any character but the newline.
\<close>

definition jestMockPattern :: regex where
  "jestMockPattern =
    seqs [BeginLine, Star False Space, constPrefix, lits ''jest'', AnyNotNL, lits ''mock('',
          Star True
            (Cap JEST_MOCK (Alt singleQuoted (Seq doubleQuoted (Star True (Lit CHR '','')))))]"

text \<open>\<open>(?m)^\s*?(?:return )?jest.requireActual\((?P<jestRequireActual>LITERAL).*?\<close>\<close>

definition jestRequireActualPattern :: regex where
  "jestRequireActualPattern =
    seqs [BeginLine, Star False Space, Quest True (lits ''return ''), lits ''jest'', AnyNotNL,
          lits ''requireActual('', Cap JEST_REQUIRE_ACTUAL stringLiteralPattern,
          Star False AnyNotNL]"

text \<open>\<open>(?m)^\s*?(?:const .+ = )?require.resolve\((?P<requireResolve>LITERAL)\).*\<close>\<close>

definition requireResolvePattern :: regex where
  "requireResolvePattern =
    seqs [BeginLine, Star False Space, constPrefix, lits ''require'', AnyNotNL,
          lits ''resolve('', Cap REQUIRE_RESOLVE stringLiteralPattern, Lit CHR '')'',
          Star True AnyNotNL]"

text \<open>
  \<open>(?m)^\s*?(?:const .+ = )?jest.createMockFromModule\((?P<createMockFromModule>LITERAL)\).*\<close>
\<close>

definition jestCreateMockFromModulePattern :: regex where
  "jestCreateMockFromModulePattern =
    seqs [BeginLine, Star False Space, constPrefix, lits ''jest'', AnyNotNL,
          lits ''createMockFromModule('', Cap JEST_CREATE_MOCK_FROM_MODULE stringLiteralPattern,
          Lit CHR '')'', Star True AnyNotNL]"

text \<open>The seven patterns joined by \<open>|\<close>, in the order of the source.\<close>

definition jsImportPattern :: regex where
  "jsImportPattern =
    alts [importPattern, requirePattern, exportPattern, jestMockPattern,
          jestRequireActualPattern, requireResolvePattern, jestCreateMockFromModulePattern]"

section \<open>unquoteImportString and ParseJS\<close>

text \<open>
  A call either returns, with an \<open>error\<close> value built by \<open>fmt.Errorf\<close> or with
  a result, or panics on a slice expression out of range.
\<close>

datatype error = SliceBoundsOutOfRange | Errorf string

text \<open>
  The loop at lines 97 to 101: every piece but the last gets a backslash
  appended when it is empty or does not end in one.
\<close>

fun reescape :: "string list \<Rightarrow> string list" where
  "reescape [] = []"
| "reescape [p] = [p]"
| "reescape (p # ps) = (if p = [] \<or> last p \<noteq> backslash then p @ [backslash] else p) # reescape ps"

text \<open>Lines 110 to 114: \<open>strconv.Unquote\<close> of the buffer, and the error that names it.\<close>

definition unquoteBuffer :: "string \<Rightarrow> error + string" where
  "unquoteBuffer quoted =
    (case Unquote quoted of
       None \<Rightarrow> Inl (Errorf (''unquoting string literal '' @ quoted @ '' from js: invalid syntax''))
     | Some result \<Rightarrow> Inr result)"

text \<open>
  Lines 95 to 104: the body between the first and the last byte is split at its
  double quotes. With several pieces, \<open>quoted\<close> is assigned a new buffer, the
  re-escaped pieces joined and wrapped in double quotes (\<open>Some\<close> of it); with
  one piece \<open>quoted\<close> stays the slice it was (\<open>None\<close>).
\<close>

definition requote :: "string \<Rightarrow> string option" where
  "requote quoted =
    (let noQuotes = Split (slice quoted (1, length quoted - 1)) dquote in
     if length noQuotes \<noteq> 1
     then Some (dquote # Join (reescape noQuotes) dquote @ [dquote])
     else None)"

text \<open>Lines 105 to 108, on a buffer of its own.\<close>

definition rewriteDelims :: "string \<Rightarrow> string" where
  "rewriteDelims quoted =
    (if quoted ! 0 = squote then quoted[0 := dquote, length quoted - 1 := dquote] else quoted)"

text \<open>
  \<open>unquoteImportString\<close> gets a slice of the buffer that was searched: the span
  \<open>sp\<close> of \<open>data\<close>. The slice expression of line 95 panics on a slice shorter
  than two bytes. When \<open>quoted\<close> has been assigned a new buffer, \<open>data\<close> stays
  as it is. Otherwise \<open>quoted\<close> still is the caller's slice, and lines 105 to
  108 write the two double quotes into \<open>data\<close> itself. The function returns
  the buffer after the call with its result.
\<close>

definition unquoteImportString :: "string \<Rightarrow> span \<Rightarrow> string \<times> (error + string)" where
  "unquoteImportString data sp =
    (let quoted = slice data sp in
     if length quoted < 2 then (data, Inl SliceBoundsOutOfRange)
     else
       (case requote quoted of
          Some fresh \<Rightarrow> (data, unquoteBuffer (rewriteDelims fresh))
        | None \<Rightarrow>
           (let data' = (if quoted ! 0 = squote
                         then data[fst sp := dquote, fst sp + length quoted - 1 := dquote]
                         else data)
            in (data', unquoteBuffer (slice data' sp)))))"

text \<open>
  One arm of the switch of \<open>ParseJS\<close>: unquote the captured literal; on an
  error, wrap it with the slice \<open>match[k]\<close> as it then reads; otherwise the
  value to append, after \<open>post\<close>.
\<close>

definition caseArm ::
  "(string \<Rightarrow> string) \<Rightarrow> string \<Rightarrow> span \<Rightarrow> string \<times> (error + string option)" where
  "caseArm post data sp =
    (case unquoteImportString data sp of
       (data', Inl SliceBoundsOutOfRange) \<Rightarrow> (data', Inl SliceBoundsOutOfRange)
     | (data', Inl (Errorf err)) \<Rightarrow>
         (data', Inl (Errorf (''unquoting string literal '' @ slice data' sp @ '' from js, '' @ err)))
     | (data', Inr unquoted) \<Rightarrow> (data', Inr (Some (post unquoted))))"

text \<open>
  The switch on one match: the first group that is not nil decides, in the
  order of the source; a match with no group is the default case.
\<close>

definition switchMatch ::
  "(string \<Rightarrow> string) \<Rightarrow> span option list \<Rightarrow> string \<Rightarrow> string \<times> (error + string option)" where
  "switchMatch unicodeLower match data =
    (case match ! IMPORT of Some sp \<Rightarrow> caseArm (\<lambda>unquoted. unquoted) data sp | None \<Rightarrow>
    (case match ! REQUIRE of Some sp \<Rightarrow> caseArm (ToLower unicodeLower) data sp | None \<Rightarrow>
    (case match ! EXPORT of Some sp \<Rightarrow> caseArm (ToLower unicodeLower) data sp | None \<Rightarrow>
    (case match ! JEST_MOCK of Some sp \<Rightarrow> caseArm (ToLower unicodeLower) data sp | None \<Rightarrow>
    (case match ! JEST_REQUIRE_ACTUAL of Some sp \<Rightarrow> caseArm (ToLower unicodeLower) data sp | None \<Rightarrow>
    (case match ! REQUIRE_RESOLVE of Some sp \<Rightarrow> caseArm (ToLower unicodeLower) data sp | None \<Rightarrow>
    (case match ! JEST_CREATE_MOCK_FROM_MODULE of
       Some sp \<Rightarrow> caseArm (ToLower unicodeLower) data sp
     | None \<Rightarrow> (data, Inr None))))))))"

text \<open>The loop over the matches: it returns at the first error.\<close>

fun ParseJS_loop ::
  "(string \<Rightarrow> string) \<Rightarrow> span option list list \<Rightarrow> string \<Rightarrow> string list
     \<Rightarrow> string \<times> (error + string list)" where
  "ParseJS_loop unicodeLower [] data imports = (data, Inr imports)"
| "ParseJS_loop unicodeLower (match # rest) data imports =
    (case switchMatch unicodeLower match data of
       (data', Inl err) \<Rightarrow> (data', Inl err)
     | (data', Inr None) \<Rightarrow> ParseJS_loop unicodeLower rest data' imports
     | (data', Inr (Some v)) \<Rightarrow> ParseJS_loop unicodeLower rest data' (imports @ [v]))"

text \<open>
  \<open>ParseJS\<close>: all matches are found first, then the loop runs over them, then
  the values are sorted. \<open>ParseJS_buffer\<close> is \<open>data\<close> as the call leaves it.
\<close>

definition ParseJS :: "(string \<Rightarrow> string) \<Rightarrow> string \<Rightarrow> error + string list" where
  "ParseJS unicodeLower data =
    (case snd (ParseJS_loop unicodeLower (FindAllSubmatchIndex jsImportPattern data) data []) of
       Inl err \<Rightarrow> Inl err
     | Inr imports \<Rightarrow> Inr (Strings imports))"

definition ParseJS_buffer :: "(string \<Rightarrow> string) \<Rightarrow> string \<Rightarrow> string" where
  "ParseJS_buffer unicodeLower data =
    fst (ParseJS_loop unicodeLower (FindAllSubmatchIndex jsImportPattern data) data [])"

section \<open>The frame of unquoteImportString\<close>

text \<open>
  What \<open>unquoteImportString\<close> returns for a slice that reads \<open>q\<close>, and how the
  slice reads after the call.
\<close>

definition unquoted :: "string \<Rightarrow> error + string" where
  "unquoted q = snd (unquoteImportString q (0, length q))"

definition aliased :: "string \<Rightarrow> string" where
  "aliased q = fst (unquoteImportString q (0, length q))"

lemma slice_whole [simp]: "slice q (0, length q) = q"
  by (simp add: slice_def)

lemma slice_whole_eq: "length q = n \<Longrightarrow> slice q (0, n) = q"
  by (simp add: slice_def)

lemma length_slice: "b \<le> length data \<Longrightarrow> length (slice data (a, b)) = b - a"
  by (simp add: slice_def)

lemma slice_decompose:
  "a \<le> b \<Longrightarrow> b \<le> length data \<Longrightarrow> data = take a data @ slice data (a, b) @ drop b data"
proof -
  assume ab: "a \<le> b" "b \<le> length data"
  have "drop a data = take (b - a) (drop a data) @ drop (b - a) (drop a data)"
    by (simp only: append_take_drop_id)
  also have "drop (b - a) (drop a data) = drop b data" using ab by simp
  finally have "drop a data = slice data (a, b) @ drop b data" by (simp add: slice_def)
  then have "take a data @ drop a data = take a data @ slice data (a, b) @ drop b data" by simp
  then show ?thesis by simp
qed

lemma slice_of_parts:
  "length pre = a \<Longrightarrow> length q = b - a \<Longrightarrow> a \<le> b \<Longrightarrow> slice (pre @ q @ post) (a, b) = q"
  by (simp add: slice_def)

lemma update_parts:
  assumes "length pre = a" "2 \<le> length q"
  shows "(pre @ q @ post)[a := x, a + length q - Suc 0 := y]
           = pre @ q[0 := x, length q - Suc 0 := y] @ post"
proof -
  from assms have 1: "(pre @ q @ post)[a := x] = pre @ q[0 := x] @ post"
    by (auto simp add: list_update_append)
  from assms have idx: "\<not> a + length q - Suc 0 < length pre"
    "a + length q - Suc 0 - length pre = length q - Suc 0" "length q - Suc 0 < length (q[0 := x])"
    by simp_all
  show ?thesis
    unfolding 1 by (simp only: list_update_append idx if_False if_True)
qed

lemma unquoteImportString_frame:
  assumes ab: "a \<le> b" "b \<le> length data"
  shows "unquoteImportString data (a, b) =
           (take a data @ aliased (slice data (a, b)) @ drop b data, unquoted (slice data (a, b)))"
proof -
  define q where "q = slice data (a, b)"
  define pre where "pre = take a data"
  define post where "post = drop b data"
  have data: "data = pre @ q @ post"
    unfolding q_def pre_def post_def using ab by (rule slice_decompose)
  have lp: "length pre = a" using ab by (simp add: pre_def)
  have lq: "length q = b - a" using ab by (simp add: q_def length_slice)
  have sl: "slice (pre @ q' @ post) (a, b) = q'" if "length q' = length q" for q'
    using that lp lq ab by (simp add: slice_of_parts)
  have sl0: "slice data (a, b) = q" by (simp add: q_def)
  show ?thesis
  proof (cases "length q < 2")
    case True
    then show ?thesis
      by (simp add: unquoteImportString_def unquoted_def aliased_def sl0 Let_def
                    q_def [symmetric] pre_def [symmetric] post_def [symmetric] data [symmetric])
  next
    case False
    then have two: "2 \<le> length q" by simp
    have upd: "data[a := x, a + length q - Suc 0 := y] = pre @ q[0 := x, length q - Suc 0 := y] @ post"
      for x y
      by (subst data) (rule update_parts [OF lp two])
    show ?thesis
      using False two
      by (auto simp: unquoteImportString_def unquoted_def aliased_def sl0 Let_def upd sl slice_whole_eq
                     q_def [symmetric] pre_def [symmetric] post_def [symmetric] data [symmetric]
               split: option.splits)
  qed
qed

lemma length_aliased [simp]: "length (aliased q) = length q"
  by (auto simp: aliased_def unquoteImportString_def Let_def split: option.splits)

section \<open>The switch and the loop of ParseJS, read from the captures\<close>

text \<open>
  The seven forms of the specification. The form of a match is the first of
  them whose group has captured, in the order of the switch.
\<close>

datatype MatchKind =
    StaticImport | Require | StaticExport | JestMock | JestRequireActual
  | RequireResolve | JestCreateMockFromModule

fun groupOf :: "MatchKind \<Rightarrow> nat" where
  "groupOf StaticImport = IMPORT"
| "groupOf Require = REQUIRE"
| "groupOf StaticExport = EXPORT"
| "groupOf JestMock = JEST_MOCK"
| "groupOf JestRequireActual = JEST_REQUIRE_ACTUAL"
| "groupOf RequireResolve = REQUIRE_RESOLVE"
| "groupOf JestCreateMockFromModule = JEST_CREATE_MOCK_FROM_MODULE"

fun firstCaptured :: "span option list \<Rightarrow> MatchKind list \<Rightarrow> (MatchKind \<times> span) option" where
  "firstCaptured m [] = None"
| "firstCaptured m (k # ks) =
    (case m ! groupOf k of Some sp \<Rightarrow> Some (k, sp) | None \<Rightarrow> firstCaptured m ks)"

definition matchKind :: "span option list \<Rightarrow> (MatchKind \<times> span) option" where
  "matchKind m =
    firstCaptured m [StaticImport, Require, StaticExport, JestMock, JestRequireActual,
                     RequireResolve, JestCreateMockFromModule]"

text \<open>
  What the code stores for a form: the unquoted value as it is for a static
  import, and lower-cased for each of the six other forms.
\<close>

definition stored :: "(string \<Rightarrow> string) \<Rightarrow> MatchKind \<Rightarrow> string \<Rightarrow> string" where
  "stored unicodeLower k u = (if k = StaticImport then u else ToLower unicodeLower u)"

text \<open>The error an arm of the switch returns, around the literal as its slice then reads.\<close>

fun wrapError :: "string \<Rightarrow> error \<Rightarrow> error" where
  "wrapError lit SliceBoundsOutOfRange = SliceBoundsOutOfRange"
| "wrapError lit (Errorf err) = Errorf (''unquoting string literal '' @ lit @ '' from js, '' @ err)"

lemma stored_import: "stored lw StaticImport = (\<lambda>unquoted. unquoted)"
  by (rule ext) (simp add: stored_def)

lemma stored_other: "k \<noteq> StaticImport \<Longrightarrow> stored lw k = ToLower lw"
  by (rule ext) (simp add: stored_def)

lemma switchMatch_kind:
  "switchMatch lw m data =
    (case matchKind m of
       None \<Rightarrow> (data, Inr None)
     | Some (k, sp) \<Rightarrow> caseArm (stored lw k) data sp)"
  by (simp add: switchMatch_def matchKind_def stored_import stored_other split: option.splits)

lemma caseArm_frame:
  assumes ab: "a \<le> b" "b \<le> length data"
  shows "caseArm post data (a, b) =
          (take a data @ aliased (slice data (a, b)) @ drop b data,
           case unquoted (slice data (a, b)) of
             Inl e \<Rightarrow> Inl (wrapError (aliased (slice data (a, b))) e)
           | Inr u \<Rightarrow> Inr (Some (post u)))"
proof -
  have "slice (take a data @ aliased (slice data (a, b)) @ drop b data) (a, b)
          = aliased (slice data (a, b))"
    using ab by (intro slice_of_parts) (simp_all add: length_slice)
  then show ?thesis
    by (simp add: caseArm_def unquoteImportString_frame [OF ab] split: sum.splits error.splits)
qed

text \<open>
  The result of the loop as a function of the text that was searched: each
  match with a capture is unquoted from the input as it was given, whatever
  the calls before it have written into the buffer.
\<close>

fun outcome ::
  "(string \<Rightarrow> string) \<Rightarrow> string \<Rightarrow> span option list list \<Rightarrow> string list \<Rightarrow> error + string list" where
  "outcome lw data [] acc = Inr acc"
| "outcome lw data (m # ms) acc =
    (case matchKind m of
       None \<Rightarrow> outcome lw data ms acc
     | Some (k, sp) \<Rightarrow>
        (case unquoted (slice data sp) of
           Inl e \<Rightarrow> Inl (wrapError (aliased (slice data sp)) e)
         | Inr u \<Rightarrow> outcome lw data ms (acc @ [stored lw k u])))"

lemma firstCaptured_nth:
  "firstCaptured m ks = Some (k, sp) \<Longrightarrow> m ! groupOf k = Some sp"
  by (induction ks) (auto split: option.splits)

lemma groupOf_less: "groupOf k < 8"
  by (cases k)
     (simp_all add: IMPORT_def REQUIRE_def EXPORT_def JEST_MOCK_def JEST_REQUIRE_ACTUAL_def
                    REQUIRE_RESOLVE_def JEST_CREATE_MOCK_FROM_MODULE_def)

lemma matchKind_span:
  assumes "matchKind m = Some (k, (a, c))" "length m = 8" "spans_in b e m"
  shows "b \<le> a \<and> a \<le> c \<and> c \<le> e"
proof -
  from assms(1) have "m ! groupOf k = Some (a, c)"
    unfolding matchKind_def by (rule firstCaptured_nth)
  moreover have "m ! groupOf k \<in> set m"
    using groupOf_less [of k] assms(2) by simp
  ultimately show ?thesis
    using assms(3) by (auto simp: spans_in_def list_all_iff)
qed

lemma drop_eq_later: "drop lo x = drop lo y \<Longrightarrow> lo \<le> e \<Longrightarrow> drop e x = drop e y"
proof -
  assume eq: "drop lo x = drop lo y" and le: "lo \<le> e"
  have "drop e x = drop (e - lo) (drop lo x)" using le by simp
  also have "\<dots> = drop (e - lo) (drop lo y)" by (simp only: eq)
  also have "\<dots> = drop e y" using le by simp
  finally show ?thesis .
qed

lemma slice_eq_later: "drop lo x = drop lo y \<Longrightarrow> lo \<le> a \<Longrightarrow> slice x (a, c) = slice y (a, c)"
  using drop_eq_later [of lo x y a] by (simp add: slice_def)

lemma drop_after_span:
  "a \<le> c \<Longrightarrow> c \<le> e \<Longrightarrow> c \<le> length buf \<Longrightarrow> length q = c - a \<Longrightarrow>
   drop e (take a buf @ q @ drop c buf) = drop e buf"
  by simp

lemma ParseJS_loop_outcome:
  "ordered_from lo (length data) ms \<Longrightarrow> list_all (\<lambda>m. length m = 8) ms \<Longrightarrow>
   length buf = length data \<Longrightarrow> drop lo buf = drop lo data \<Longrightarrow>
   snd (ParseJS_loop lw ms buf acc) = outcome lw data ms acc"
proof (induction ms arbitrary: lo buf acc)
  case Nil
  then show ?case by simp
next
  case (Cons m ms)
  from Cons.prems(1) obtain b e where whole: "m ! 0 = Some (b, e)"
    and lo: "lo \<le> b" and e: "e \<le> length data" and sp: "spans_in b e m"
    and rest: "ordered_from e (length data) ms"
    by (auto split: option.splits)
  from Cons.prems(2) have len: "length m = 8" and lens: "list_all (\<lambda>m. length m = 8) ms"
    by simp_all
  have "m ! 0 \<in> set m" using len by simp
  with sp whole have be: "b \<le> e"
    by (auto simp: spans_in_def list_all_iff)
  show ?case
  proof (cases "matchKind m")
    case None
    from drop_eq_later [OF Cons.prems(4)] lo be have "drop e buf = drop e data" by simp
    from Cons.IH [OF rest lens Cons.prems(3) this] None show ?thesis
      by (simp add: switchMatch_kind)
  next
    case (Some ksp)
    obtain k a c where ksp: "ksp = (k, (a, c))" by (cases ksp) auto
    from matchKind_span [OF Some [unfolded ksp] len sp] have ac: "b \<le> a" "a \<le> c" "c \<le> e"
      by simp_all
    from ac e Cons.prems(3) have cbuf: "c \<le> length buf" by simp
    from slice_eq_later [OF Cons.prems(4)] lo ac have sl: "slice buf (a, c) = slice data (a, c)"
      by simp
    define buf' where "buf' = take a buf @ aliased (slice data (a, c)) @ drop c buf"
    have arm: "caseArm (stored lw k) buf (a, c) =
        (buf', case unquoted (slice data (a, c)) of
                 Inl e \<Rightarrow> Inl (wrapError (aliased (slice data (a, c))) e)
               | Inr u \<Rightarrow> Inr (Some (stored lw k u)))"
      unfolding buf'_def by (rule caseArm_frame [OF ac(2) cbuf, of "stored lw k", unfolded sl])
    have lq: "length (aliased (slice data (a, c))) = c - a"
      using ac e by (simp add: length_slice)
    have len': "length buf' = length data"
      using Cons.prems(3) ac cbuf lq by (simp add: buf'_def)
    have "drop e buf' = drop e buf"
      unfolding buf'_def using ac cbuf lq by (intro drop_after_span) simp_all
    also from drop_eq_later [OF Cons.prems(4)] lo be have "drop e buf = drop e data" by simp
    finally have dr: "drop e buf' = drop e data" .
    show ?thesis
    proof (cases "unquoted (slice data (a, c))")
      case (Inl err)
      with Some ksp arm show ?thesis by (simp add: switchMatch_kind)
    next
      case (Inr u)
      from Cons.IH [OF rest lens len' dr] Some ksp arm Inr show ?thesis
        by (simp add: switchMatch_kind)
    qed
  qed
qed

lemma NumSubexp_jsImportPattern: "NumSubexp jsImportPattern = 7"
  by code_simp

theorem ParseJS_outcome:
  "ParseJS lw data =
    (case outcome lw data (FindAllSubmatchIndex jsImportPattern data) [] of
       Inl err \<Rightarrow> Inl err
     | Inr imports \<Rightarrow> Inr (Strings imports))"
proof -
  let ?ms = "FindAllSubmatchIndex jsImportPattern data"
  have ord: "ordered_from 0 (length data) ?ms"
    unfolding FindAllSubmatchIndex_def by (rule allMatches_ordered)
  have lens: "list_all (\<lambda>m. length m = 8) ?ms"
    unfolding FindAllSubmatchIndex_def list_all_iff
    by (auto dest!: allMatches_length simp: NumSubexp_jsImportPattern)
  from ParseJS_loop_outcome [OF ord lens refl refl]
  show ?thesis by (simp add: ParseJS_def)
qed

section \<open>Claims settled by evaluation\<close>

text \<open>
  C4. For the input consisting of the single line \<open>jest.mock('x', factoryFn)\<close>,
  extraction returns exactly the one module path \<open>x\<close>: the comma and the second
  argument after the captured literal are no part of it. The group captures
  the three bytes \<open>'x'\<close>.
\<close>

theorem C4_jest_mock_factory:
  "ParseJS unicodeLower ''jest.mock('x', factoryFn)'' = Inr [''x'']
   \<and> FindAllSubmatchIndex jsImportPattern ''jest.mock('x', factoryFn)''
       = [[Some (0, 13), None, None, None, Some (10, 13), None, None, None]]"
  by code_simp

section \<open>Claims about the values stored and their order\<close>

lemma outcome_values:
  "outcome lw data ms acc = Inr res \<Longrightarrow>
   \<exists>vals. res = acc @ vals \<and>
     list_all2 (\<lambda>v (k, sp). \<exists>u. unquoted (slice data sp) = Inr u \<and> v = stored lw k u)
       vals (List.map_filter matchKind ms)"
proof (induction ms arbitrary: acc)
  case Nil
  then show ?case by (simp add: map_filter_simps)
next
  case (Cons m ms)
  show ?case
  proof (cases "matchKind m")
    case None
    with Cons show ?thesis by (simp add: map_filter_simps)
  next
    case (Some ksp)
    obtain k sp where ksp: "ksp = (k, sp)" by (cases ksp) auto
    from Cons.prems Some ksp obtain u where u: "unquoted (slice data sp) = Inr u"
      and rest: "outcome lw data ms (acc @ [stored lw k u]) = Inr res"
      by (auto split: sum.splits)
    from Cons.IH [OF rest] obtain vals where "res = (acc @ [stored lw k u]) @ vals"
      and "list_all2 (\<lambda>v (k, sp). \<exists>u. unquoted (slice data sp) = Inr u \<and> v = stored lw k u)
             vals (List.map_filter matchKind ms)"
      by blast
    with Some ksp u show ?thesis
      by (intro exI [of _ "stored lw k u # vals"]) (simp add: map_filter_simps)
  qed
qed

lemma ParseJS_values:
  assumes "ParseJS lw data = Inr res"
  shows "\<exists>vals. res = Strings vals \<and>
     list_all2 (\<lambda>v (k, sp). \<exists>u. unquoted (slice data sp) = Inr u \<and> v = stored lw k u)
       vals (List.map_filter matchKind (FindAllSubmatchIndex jsImportPattern data))"
proof -
  from assms obtain vs where
    out: "outcome lw data (FindAllSubmatchIndex jsImportPattern data) [] = Inr vs"
    and res: "res = Strings vs"
    by (auto simp: ParseJS_outcome split: sum.splits)
  from outcome_values [OF out] res show ?thesis by auto
qed

lemma eval_import_AB: "ParseJS (\<lambda>s. s) ''import \"A/B\"'' = Inr [''A/B'']"
  by code_simp

text \<open>
  C1, as the code has it. For every input on which extraction succeeds, the
  values stored are, in the order of the scan, one for each match in which a
  group has captured: for a match of the static import form the unquoted
  literal with its case unchanged, and for a match of each of the six other
  forms (require, static export, jest.mock, jest.requireActual,
  require.resolve, jest.createMockFromModule) the unquoted literal put into
  lower case. The result is that list, sorted.
\<close>

theorem C1_stored_case:
  assumes "ParseJS unicodeLower data = Inr res"
  shows "\<exists>vals. res = Strings vals \<and>
     list_all2
       (\<lambda>v (k, sp). \<exists>u. unquoted (slice data sp) = Inr u \<and>
                       v = (if k = StaticImport then u else ToLower unicodeLower u))
       vals (List.map_filter matchKind (FindAllSubmatchIndex jsImportPattern data))"
  using ParseJS_values [OF assms] by (simp add: stored_def)

theorem C1_stored_case_witness:
  "\<exists>vals. [''A/B''] = Strings vals \<and>
     list_all2
       (\<lambda>v (k, sp). \<exists>u. unquoted (slice ''import \"A/B\"'' sp) = Inr u \<and>
                       v = (if k = StaticImport then u else ToLower (\<lambda>s. s) u))
       vals (List.map_filter matchKind (FindAllSubmatchIndex jsImportPattern ''import \"A/B\"''))"
  by (rule C1_stored_case [OF eval_import_AB])

text \<open>
  C1 as stated fails for the static export form: the single line
  \<open>export "A/B"\<close> is a match of that form, whose literal unquotes to \<open>A/B\<close>,
  and the result is \<open>a/b\<close>.
\<close>

theorem C1_export_counterexample:
  "map matchKind (FindAllSubmatchIndex jsImportPattern ''export \"A/B\"'')
     = [Some (StaticExport, (7, 12))]
   \<and> unquoted (slice ''export \"A/B\"'' (7, 12)) = Inr ''A/B''
   \<and> ParseJS (\<lambda>s. s) ''export \"A/B\"'' = Inr [''a/b'']
   \<and> ParseJS (\<lambda>s. s) ''export \"A/B\"'' \<noteq> Inr [''A/B'']"
  by code_simp

lemma sorted_Strings: "sorted (Strings xs)"
  by (simp add: Strings_def)

lemma length_Strings: "length (Strings xs) = length xs"
  by (simp add: Strings_def)

lemma eval_require_z_a:
  "ParseJS unicodeLower (''require(\"z\")'' @ [newline] @ ''require(\"a\")'') = Inr [''a'', ''z'']"
  by code_simp

lemma eval_require_twice:
  "ParseJS unicodeLower (''require(\"a\")'' @ [newline] @ ''require(\"a\")'') = Inr [''a'', ''a'']"
  by code_simp

lemma mset_Strings: "mset (Strings xs) = mset xs"
  by (simp add: Strings_def)

text \<open>
  C3. For every input on which extraction succeeds, the result is sorted in
  increasing order of the byte-wise comparison of strings, and it is a
  rearrangement of the values stored, of which there is one for each match in
  which a group has captured, in the order of the scan: the result holds every
  stored value as many times as it was stored, so no duplicate is dropped. An
  input with \<open>require("z")\<close> on the line before \<open>require("a")\<close> gives
  \<open>a\<close>, \<open>z\<close>, and the same path required twice is there twice.
\<close>

theorem C3_sorted_with_duplicates:
  "(\<forall>data res. ParseJS unicodeLower data = Inr res \<longrightarrow>
      sorted res \<and>
      (\<exists>vals. mset res = mset vals \<and>
         list_all2
           (\<lambda>v (k, sp). \<exists>u. unquoted (slice data sp) = Inr u \<and>
                           v = (if k = StaticImport then u else ToLower unicodeLower u))
           vals (List.map_filter matchKind (FindAllSubmatchIndex jsImportPattern data))) \<and>
      length res = length (List.map_filter matchKind (FindAllSubmatchIndex jsImportPattern data)))
   \<and> ParseJS unicodeLower (''require(\"z\")'' @ [newline] @ ''require(\"a\")'') = Inr [''a'', ''z'']
   \<and> ParseJS unicodeLower (''require(\"a\")'' @ [newline] @ ''require(\"a\")'') = Inr [''a'', ''a'']"
proof (intro conjI allI impI)
  fix data res
  assume "ParseJS unicodeLower data = Inr res"
  from ParseJS_values [OF this] obtain vals where res: "res = Strings vals"
    and all: "list_all2 (\<lambda>v (k, sp). \<exists>u. unquoted (slice data sp) = Inr u \<and> v = stored unicodeLower k u)
                vals (List.map_filter matchKind (FindAllSubmatchIndex jsImportPattern data))"
    by blast
  show "sorted res" by (simp add: res sorted_Strings)
  from all have all': "list_all2
           (\<lambda>v (k, sp). \<exists>u. unquoted (slice data sp) = Inr u \<and>
                           v = (if k = StaticImport then u else ToLower unicodeLower u))
           vals (List.map_filter matchKind (FindAllSubmatchIndex jsImportPattern data))"
    by (simp add: stored_def)
  have "mset res = mset vals" by (simp add: res mset_Strings)
  with all' show "\<exists>vals. mset res = mset vals \<and>
         list_all2
           (\<lambda>v (k, sp). \<exists>u. unquoted (slice data sp) = Inr u \<and>
                           v = (if k = StaticImport then u else ToLower unicodeLower u))
           vals (List.map_filter matchKind (FindAllSubmatchIndex jsImportPattern data))"
    by blast
  from list_all2_lengthD [OF all] show
    "length res = length (List.map_filter matchKind (FindAllSubmatchIndex jsImportPattern data))"
    by (simp add: res length_Strings)
qed (rule eval_require_z_a eval_require_twice)+

theorem C3_sorted_with_duplicates_witness:
  "sorted [''a'', ''z''] \<and>
   (\<exists>vals. mset [''a'', ''z''] = mset vals \<and>
      list_all2
        (\<lambda>v (k, sp). \<exists>u. unquoted (slice (''require(\"z\")'' @ [newline] @ ''require(\"a\")'') sp) = Inr u \<and>
                        v = (if k = StaticImport then u else ToLower (\<lambda>s. s) u))
        vals (List.map_filter matchKind
               (FindAllSubmatchIndex jsImportPattern (''require(\"z\")'' @ [newline] @ ''require(\"a\")'')))) \<and>
   length [''a'', ''z''] =
     length (List.map_filter matchKind
       (FindAllSubmatchIndex jsImportPattern (''require(\"z\")'' @ [newline] @ ''require(\"a\")'')))"
  by (rule C3_sorted_with_duplicates [of "\<lambda>s. s", THEN conjunct1, rule_format, OF eval_require_z_a])

section \<open>Matches without a capture\<close>

text \<open>A match in which none of the seven groups has captured: the default case of the switch.\<close>

definition noCapture :: "span option list \<Rightarrow> bool" where
  "noCapture m =
    (m ! IMPORT = None \<and> m ! REQUIRE = None \<and> m ! EXPORT = None \<and> m ! JEST_MOCK = None \<and>
     m ! JEST_REQUIRE_ACTUAL = None \<and> m ! REQUIRE_RESOLVE = None \<and>
     m ! JEST_CREATE_MOCK_FROM_MODULE = None)"

lemma matchKind_noCapture: "matchKind m = None \<longleftrightarrow> noCapture m"
  by (auto simp: matchKind_def noCapture_def split: option.splits)

lemma switchMatch_noCapture: "noCapture m \<Longrightarrow> switchMatch lw m data = (data, Inr None)"
  by (simp add: switchMatch_kind matchKind_noCapture [symmetric])

lemma outcome_noCapture: "list_all noCapture ms \<Longrightarrow> outcome lw data ms acc = Inr acc"
  by (induction ms arbitrary: acc) (simp_all add: matchKind_noCapture [symmetric])

lemma Strings_Nil: "Strings [] = []"
  by (simp add: Strings_def)

lemma eval_comment_import: "ParseJS unicodeLower ''// import \"x\"'' = Inr []"
  by code_simp

lemma eval_ordinary_code:
  "ParseJS unicodeLower (''var x = 1;'' @ [newline] @ ''console.log(x)'') = Inr []"
  by code_simp

lemma eval_no_match_comment: "FindAllSubmatchIndex jsImportPattern ''// import \"x\"'' = []"
  by code_simp

text \<open>
  C8. For every input in which no match of the pattern has a capture of any
  of the seven forms (there may be no match at all), extraction succeeds and
  returns the empty sequence; so it does for a comment that looks like an
  import and for ordinary code.
\<close>

theorem C8_no_form_no_imports:
  "(\<forall>data. list_all noCapture (FindAllSubmatchIndex jsImportPattern data) \<longrightarrow>
      ParseJS unicodeLower data = Inr [])
   \<and> ParseJS unicodeLower ''// import \"x\"'' = Inr []
   \<and> ParseJS unicodeLower (''var x = 1;'' @ [newline] @ ''console.log(x)'') = Inr []"
proof (intro conjI allI impI)
  fix data
  assume "list_all noCapture (FindAllSubmatchIndex jsImportPattern data)"
  then show "ParseJS unicodeLower data = Inr []"
    by (simp add: ParseJS_outcome outcome_noCapture Strings_Nil)
qed (rule eval_comment_import eval_ordinary_code)+

theorem C8_no_form_no_imports_witness:
  "list_all noCapture (FindAllSubmatchIndex jsImportPattern ''// import \"x\"'')
   \<and> ParseJS (\<lambda>s. s) ''// import \"x\"'' = Inr []"
proof -
  have h: "list_all noCapture (FindAllSubmatchIndex jsImportPattern ''// import \"x\"'')"
    by (simp add: eval_no_match_comment)
  from C8_no_form_no_imports [of "\<lambda>s. s", THEN conjunct1, rule_format, OF h] h
  show ?thesis by simp
qed

lemma ParseJS_loop_skip:
  "noCapture m \<Longrightarrow>
   ParseJS_loop lw (ms1 @ m # ms2) data acc = ParseJS_loop lw (ms1 @ ms2) data acc"
proof (induction ms1 arbitrary: data acc)
  case Nil
  then show ?case by (simp add: switchMatch_noCapture)
next
  case (Cons m1 ms1)
  then show ?case by (simp split: prod.splits sum.splits option.splits)
qed

lemma eval_jest_mock_foo:
  "FindAllSubmatchIndex jsImportPattern ''jest.mock(foo)''
     = [[Some (0, 10), None, None, None, None, None, None, None]]"
  by code_simp

lemma eval_jest_mock_foo_result: "ParseJS unicodeLower ''jest.mock(foo)'' = Inr []"
  by code_simp

lemma noCapture_jest_mock_foo:
  "noCapture [Some (0, 10), None, None, None, None, None, None, None]"
  by code_simp

text \<open>
  C10. A match in which none of the seven groups has captured takes the
  default case: the switch leaves the buffer as it is and stores nothing, and
  the loop over any list of matches gives what it gives without that match, so
  such a match adds nothing and cannot make the extraction fail. Such a match
  is reachable: \<open>jest.mock(foo)\<close> matches with the starred group of jest.mock
  repeated zero times, and extraction returns the empty sequence.
\<close>

theorem C10_match_without_capture:
  "(\<forall>m ms1 ms2 data acc. noCapture m \<longrightarrow>
      switchMatch unicodeLower m data = (data, Inr None) \<and>
      ParseJS_loop unicodeLower (ms1 @ m # ms2) data acc
        = ParseJS_loop unicodeLower (ms1 @ ms2) data acc)
   \<and> FindAllSubmatchIndex jsImportPattern ''jest.mock(foo)''
       = [[Some (0, 10), None, None, None, None, None, None, None]]
   \<and> ParseJS unicodeLower ''jest.mock(foo)'' = Inr []"
proof (intro conjI allI impI)
  fix m ms1 ms2 data acc
  assume "noCapture m"
  then show "switchMatch unicodeLower m data = (data, Inr None)"
    and "ParseJS_loop unicodeLower (ms1 @ m # ms2) data acc
           = ParseJS_loop unicodeLower (ms1 @ ms2) data acc"
    by (simp_all add: switchMatch_noCapture ParseJS_loop_skip)
qed (rule eval_jest_mock_foo eval_jest_mock_foo_result)+

theorem C10_match_without_capture_witness:
  "noCapture [Some (0, 10), None, None, None, None, None, None, None]
   \<and> switchMatch (\<lambda>s. s) [Some (0, 10), None, None, None, None, None, None, None]
        ''jest.mock(foo)'' = (''jest.mock(foo)'', Inr None)
   \<and> ParseJS_loop (\<lambda>s. s) ([] @ [Some (0, 10), None, None, None, None, None, None, None] # [])
        ''jest.mock(foo)'' [] = ParseJS_loop (\<lambda>s. s) ([] @ []) ''jest.mock(foo)'' []"
  using C10_match_without_capture [of "\<lambda>s. s", THEN conjunct1, rule_format,
          OF noCapture_jest_mock_foo, of "''jest.mock(foo)''" "[]" "[]" "[]"]
        noCapture_jest_mock_foo
  by simp

section \<open>Literals that fail to unquote\<close>

lemma outcome_fails:
  "m \<in> set ms \<Longrightarrow> matchKind m = Some (k, sp) \<Longrightarrow> unquoted (slice data sp) = Inl e \<Longrightarrow>
   \<exists>err. outcome lw data ms acc = Inl err"
proof (induction ms arbitrary: acc)
  case Nil
  then show ?case by simp
next
  case (Cons m1 ms)
  show ?case
  proof (cases "m = m1")
    case True
    with Cons.prems show ?thesis by simp
  next
    case False
    with Cons.prems have "m \<in> set ms" by simp
    from Cons.IH [OF this Cons.prems(2,3)] show ?thesis
      by (auto split: option.splits sum.splits)
  qed
qed

text \<open>
  Whenever a capture of some match fails to unquote, the whole extraction
  fails: no sequence of module paths is returned.
\<close>

lemma ParseJS_fails_whole:
  assumes "m \<in> set (FindAllSubmatchIndex jsImportPattern data)"
    and "matchKind m = Some (k, sp)" and "unquoted (slice data sp) = Inl e"
  shows "\<exists>err. ParseJS lw data = Inl err"
  using outcome_fails [OF assms, of lw "[]"] by (auto simp: ParseJS_outcome)

text \<open>
  C2, at the input \<open>require('\q')\<close>. The escape \<open>\q\<close> is invalid, so the
  extraction fails. The captured slice shares the buffer that was searched;
  the body has no double quote, so lines 105 to 108 have written double quotes
  over its delimiters before the error is built: the error names \<open>"\q"\<close>
  where the text of the file has \<open>'\q'\<close>, and the buffer of the caller has
  changed.
\<close>

theorem C2_error_names_rewritten_literal:
  "ParseJS unicodeLower (''require('' @ [squote, backslash, CHR ''q'', squote] @ '')'')
     = Inl (Errorf (''unquoting string literal \"'' @ [backslash] @ ''q\" from js, ''
                    @ ''unquoting string literal \"'' @ [backslash] @ ''q\" from js: invalid syntax''))
   \<and> ParseJS_buffer unicodeLower (''require('' @ [squote, backslash, CHR ''q'', squote] @ '')'')
     = ''require(\"'' @ [backslash] @ ''q\")''"
  by code_simp

text \<open>
  C5, at the input \<open>require('it\'s')\<close>. The delimiters are rewritten to double
  quotes and \<open>"it\'s"\<close> goes to \<open>strconv.Unquote\<close>, which refuses the escape
  \<open>\'\<close> in a double-quoted literal: the extraction fails. The other example
  of the claim, \<open>import "she said \"hi\""\<close>, gives the value with its two double
  quotes.
\<close>

theorem C5_escaped_single_quote_fails:
  "ParseJS unicodeLower (''require('it'' @ [backslash] @ '''s')'')
     = Inl (Errorf (''unquoting string literal \"it'' @ [backslash] @ '''s\" from js, ''
                    @ ''unquoting string literal \"it'' @ [backslash] @ '''s\" from js: invalid syntax''))
   \<and> ParseJS unicodeLower
        (''import \"she said '' @ [backslash] @ ''\"hi'' @ [backslash] @ ''\"\"'')
     = Inr [''she said \"hi\"'']"
  by code_simp

section \<open>The re-escaping of unquoteImportString against its description\<close>

lemma IndexByte_Some:
  "IndexByte s c = Some m \<Longrightarrow> m < length s \<and> s ! m = c \<and> c \<notin> set (take m s)"
proof (induction s arbitrary: m)
  case Nil
  then show ?case by simp
next
  case (Cons x xs)
  show ?case
  proof (cases "x = c")
    case True
    with Cons.prems show ?thesis by simp
  next
    case False
    with Cons.prems obtain k where k: "IndexByte xs c = Some k" and m: "m = Suc k"
      by auto
    from Cons.IH [OF k] False show ?thesis by (simp add: m)
  qed
qed

lemma IndexByte_None: "IndexByte s c = None \<longleftrightarrow> c \<notin> set s"
  by (induction s) auto

declare Split.simps [simp del]

lemma Split_None: "IndexByte s c = None \<Longrightarrow> Split s c = [s]"
  by (subst Split.simps) simp

lemma Split_Some: "IndexByte s c = Some m \<Longrightarrow> Split s c = take m s # Split (drop (m + 1) s) c"
  by (subst Split.simps) simp

lemma Split_not_Nil: "Split s c \<noteq> []"
  by (cases "IndexByte s c") (simp_all add: Split_None Split_Some)

lemma Join_Cons: "ps \<noteq> [] \<Longrightarrow> Join (p # ps) c = p @ c # Join ps c"
  by (cases ps) simp_all

text \<open>
  \<open>Split\<close> cuts at every separator and nowhere else: joining the pieces with
  the separator gives the text back, no piece holds a separator, and there is
  one piece more than there are separators.
\<close>

lemma Split_pieces:
  "Join (Split s c) c = s \<and> list_all (\<lambda>p. c \<notin> set p) (Split s c)
   \<and> length (Split s c) = Suc (count_list s c)"
proof (induction s c rule: Split.induct)
  case (1 s c)
  show ?case
  proof (cases "IndexByte s c")
    case None
    then show ?thesis
      by (simp add: Split_None IndexByte_None)
  next
    case (Some m)
    from IndexByte_Some [OF Some] have m: "m < length s" "s ! m = c" "c \<notin> set (take m s)"
      by simp_all
    from m(1) have dec: "s = take m s @ s ! m # drop (Suc m) s"
      by (rule id_take_nth_drop)
    from "1.IH" [OF Some] have ih: "Join (Split (drop (m + 1) s) c) c = drop (m + 1) s"
      "list_all (\<lambda>p. c \<notin> set p) (Split (drop (m + 1) s) c)"
      "length (Split (drop (m + 1) s) c) = Suc (count_list (drop (m + 1) s) c)"
      by simp_all
    have "count_list s c = count_list (take m s @ s ! m # drop (Suc m) s) c"
      using dec by simp
    also have "\<dots> = Suc (count_list (drop (Suc m) s) c)"
      using m(2,3) by (simp add: count_list_0_iff)
    finally have cnt: "count_list s c = Suc (count_list (drop (Suc m) s) c)" .
    have "Join (Split s c) c = take m s @ c # drop (Suc m) s"
      using ih(1) by (simp add: Split_Some [OF Some] Join_Cons Split_not_Nil)
    also have "\<dots> = s" using dec m(2) by simp
    finally show ?thesis
      using ih m(3) cnt by (simp add: Split_Some [OF Some])
  qed
qed

text \<open>
  The description of the re-escaping: a backslash is appended to every piece
  except the last that is empty or does not already end in a backslash.
\<close>

definition describedEscape :: "string list \<Rightarrow> string list" where
  "describedEscape pieces =
    map (\<lambda>p. if p = [] \<or> last p \<noteq> backslash then p @ [backslash] else p) (butlast pieces)
    @ [last pieces]"

text \<open>
  The description of the buffer that goes to the rewriting of the delimiters
  and to the decoder: strip the first and the last byte, split the body at the
  double quotes; with more than one piece, the re-escaped pieces joined with a
  double quote and wrapped in double quotes; with exactly one piece, the
  capture as it is.
\<close>

definition describedBuffer :: "string \<Rightarrow> string" where
  "describedBuffer quoted =
    (let body = butlast (tl quoted); pieces = Split body dquote
     in if 1 < length pieces
        then [dquote] @ Join (describedEscape pieces) dquote @ [dquote]
        else quoted)"

lemma reescape_described: "ps \<noteq> [] \<Longrightarrow> reescape ps = describedEscape ps"
  by (induction ps rule: reescape.induct) (simp_all add: describedEscape_def)

lemma body_strip: "slice quoted (Suc 0, length quoted - Suc 0) = butlast (tl quoted)"
  by (simp add: slice_def butlast_conv_take drop_Suc drop_tl)

lemma requote_described:
  "(case requote quoted of Some fresh \<Rightarrow> fresh | None \<Rightarrow> quoted) = describedBuffer quoted"
proof -
  have "length (Split (butlast (tl quoted)) dquote) \<noteq> 1
        \<longleftrightarrow> 1 < length (Split (butlast (tl quoted)) dquote)"
    using Split_not_Nil [of "butlast (tl quoted)" dquote]
    by (cases "Split (butlast (tl quoted)) dquote") auto
  then show ?thesis
    by (simp add: requote_def describedBuffer_def body_strip Let_def reescape_described
                  Split_not_Nil)
qed

lemma unquoted_described:
  assumes "2 \<le> length quoted"
  shows "unquoted quoted = unquoteBuffer (rewriteDelims (describedBuffer quoted))"
proof (cases "requote quoted")
  case None
  have "slice (quoted[0 := dquote, length quoted - Suc 0 := dquote]) (0, length quoted)
          = quoted[0 := dquote, length quoted - Suc 0 := dquote]"
    by (rule slice_whole_eq) simp
  with assms None requote_described [of quoted] show ?thesis
    by (simp add: unquoted_def unquoteImportString_def rewriteDelims_def Let_def)
next
  case (Some fresh)
  with assms requote_described [of quoted] show ?thesis
    by (simp add: unquoted_def unquoteImportString_def Let_def)
qed

text \<open>
  C6. For a capture of at least two bytes, the first and the last being its
  delimiters: the body between them is split at its double quotes (joining the
  pieces with a double quote gives the body back and no piece holds one); the
  buffer that \<open>unquoteImportString\<close> goes on with is the one described, the
  re-escaped pieces joined and wrapped in double quotes when there are several
  and the capture unmodified when there is one; and the result is the decoding
  of that buffer after the rewriting of the delimiters.
\<close>

theorem C6_reescape_refines_description:
  assumes "2 \<le> length quoted"
  shows "Join (Split (butlast (tl quoted)) dquote) dquote = butlast (tl quoted)
    \<and> list_all (\<lambda>p. dquote \<notin> set p) (Split (butlast (tl quoted)) dquote)
    \<and> (case requote quoted of Some fresh \<Rightarrow> fresh | None \<Rightarrow> quoted) = describedBuffer quoted
    \<and> snd (unquoteImportString quoted (0, length quoted))
        = unquoteBuffer (rewriteDelims (describedBuffer quoted))"
  using Split_pieces [of "butlast (tl quoted)" dquote] requote_described [of quoted]
        unquoted_described [OF assms]
  by (simp add: unquoted_def)

lemma len_example: "2 \<le> length (squote # ''a\"b'' @ [squote])"
  by simp

theorem C6_reescape_refines_description_witness:
  "2 \<le> length (squote # ''a\"b'' @ [squote])
   \<and> Join (Split (butlast (tl (squote # ''a\"b'' @ [squote]))) dquote) dquote = butlast (tl (squote # ''a\"b'' @ [squote]))
   \<and> list_all (\<lambda>p. dquote \<notin> set p) (Split (butlast (tl (squote # ''a\"b'' @ [squote]))) dquote)
   \<and> (case requote (squote # ''a\"b'' @ [squote]) of Some fresh \<Rightarrow> fresh | None \<Rightarrow> (squote # ''a\"b'' @ [squote]))
        = describedBuffer (squote # ''a\"b'' @ [squote])
   \<and> snd (unquoteImportString (squote # ''a\"b'' @ [squote]) (0, length (squote # ''a\"b'' @ [squote])))
        = unquoteBuffer (rewriteDelims (describedBuffer (squote # ''a\"b'' @ [squote])))"
  using C6_reescape_refines_description [OF len_example] len_example by simp

section \<open>What the groups of the pattern capture\<close>

lemma DecodeRune_ascii:
  assumes "DecodeRune s = (r, w)" "r < 0x80" "s \<noteq> []"
  shows "w = 1 \<and> r = of_char (hd s)"
proof -
  from assms(3) obtain c cs where s: "s = c # cs" by (cases s) auto
  define p0 where "p0 = (of_char c :: nat)"
  define b1 where "b1 = (of_char (cs ! 0) :: nat)"
  define b2 where "b2 = (of_char (cs ! Suc 0) :: nat)"
  define b3 where "b3 = (of_char (cs ! 2) :: nat)"
  have two: "0x80 \<le> (p0 mod 0x20) * 0x40 + b1 mod 0x40" if "0xC2 \<le> p0" "p0 < 0xE0"
  proof -
    from that have "2 \<le> p0 mod 0x20" by presburger
    then have "2 * 0x40 \<le> (p0 mod 0x20) * 0x40" by (rule mult_le_mono1)
    then show ?thesis by simp
  qed
  have three: "0x80 \<le> (p0 mod 0x10) * 0x1000 + (b1 mod 0x40) * 0x40 + b2 mod 0x40"
    if "0xE0 \<le> p0" "p0 < 0xF0" "(if p0 = 0xE0 then 0xA0 else 0x80) \<le> b1" "b1 \<le> 0xBF"
  proof (cases "p0 = 0xE0")
    case True
    with that have "0x20 \<le> b1 mod 0x40" by presburger
    then have "0x20 * 0x40 \<le> (b1 mod 0x40) * 0x40" by (rule mult_le_mono1)
    then show ?thesis by simp
  next
    case False
    with that have "1 \<le> p0 mod 0x10" by presburger
    then have "1 * 0x1000 \<le> (p0 mod 0x10) * 0x1000" by (rule mult_le_mono1)
    then show ?thesis by simp
  qed
  have four: "0x80 \<le> (p0 mod 0x08) * 0x40000 + (b1 mod 0x40) * 0x1000 + (b2 mod 0x40) * 0x40 + b3 mod 0x40"
    if "0xF0 \<le> p0" "p0 \<le> 0xF4" "(if p0 = 0xF0 then 0x90 else 0x80) \<le> b1" "b1 \<le> 0xBF"
  proof (cases "p0 = 0xF0")
    case True
    with that have "0x10 \<le> b1 mod 0x40" by presburger
    then have "0x10 * 0x1000 \<le> (b1 mod 0x40) * 0x1000" by (rule mult_le_mono1)
    then show ?thesis by simp
  next
    case False
    with that have "1 \<le> p0 mod 0x08" by presburger
    then have "1 * 0x40000 \<le> (p0 mod 0x08) * 0x40000" by (rule mult_le_mono1)
    then show ?thesis by simp
  qed
  show ?thesis
  proof (cases "p0 < 0x80")
    case True
    with assms(1) show ?thesis by (simp add: s p0_def Let_def)
  next
    case False
    have "0x80 \<le> r"
    proof (cases "p0 < 0xC2 \<or> 0xF4 < p0")
      case True
      with False assms(1) show ?thesis
        by (auto simp: s p0_def [symmetric] Let_def RuneError_def)
    next
      case inrange: False
      consider "p0 < 0xE0" | "0xE0 \<le> p0" "p0 < 0xF0" | "0xF0 \<le> p0" by linarith
      then show ?thesis
      proof cases
        case 1
        with False inrange assms(1) two show ?thesis
          by (auto simp: s p0_def [symmetric] b1_def [symmetric] Let_def RuneError_def
                   split: if_splits)
      next
        case 2
        with False inrange assms(1) three show ?thesis
          by (auto simp: s p0_def [symmetric] b1_def [symmetric] b2_def [symmetric] Let_def
                         RuneError_def not_less
                   split: if_splits)
      next
        case 3
        with False inrange assms(1) four show ?thesis
          by (auto simp: s p0_def [symmetric] b1_def [symmetric] b2_def [symmetric]
                         b3_def [symmetric] Let_def RuneError_def not_less
                   split: if_splits)
      qed
    qed
    with assms(2) show ?thesis by simp
  qed
qed

text \<open>A literal ASCII character of the pattern matches exactly that byte.\<close>

lemma one_lit:
  assumes "t' \<in> set (one (\<lambda>r. r = of_char c) s t)" "(of_char c :: nat) < 0x80"
  shows "fst t < length s \<and> s ! fst t = c \<and> t' = (Suc (fst t), snd t)"
proof -
  from assms(1) obtain r w where st: "step s (fst t) = Some (r, w)" and r: "r = of_char c"
    and t': "t' = (fst t + w, snd t)"
    by (cases "step s (fst t)") (auto simp: one_def split: if_splits)
  from step_bounds [OF st] have lt: "fst t < length s" by simp
  from st lt have dec: "DecodeRune (drop (fst t) s) = (r, w)" by (simp add: step_def)
  from lt have ne: "drop (fst t) s \<noteq> []" by simp
  from DecodeRune_ascii [OF dec _ ne] r assms(2)
  have "w = 1" "r = of_char (hd (drop (fst t) s))" by simp_all
  moreover from lt have "hd (drop (fst t) s) = s ! fst t" by (simp add: hd_drop_conv_nth)
  ultimately show ?thesis using lt r t' by simp
qed

lemma ascii_quotes: "(of_char squote :: nat) < 0x80" "(of_char dquote :: nat) < 0x80"
  by (simp_all add: squote_def dquote_def)

text \<open>
  A span that a string literal of the pattern can match: at least two bytes,
  inside the input, the first one a quote.
\<close>

definition quotedSpan :: "string \<Rightarrow> nat \<Rightarrow> nat \<Rightarrow> bool" where
  "quotedSpan s a b = (a + 2 \<le> b \<and> b \<le> length s \<and> (s ! a = squote \<or> s ! a = dquote))"

lemma delimited_span:
  assumes "u \<in> set (run (seqs [Lit q, body, Lit q]) s t)" "(of_char q :: nat) < 0x80"
  shows "fst t + 2 \<le> fst u \<and> fst u \<le> length s \<and> s ! fst t = q \<and> s ! (fst u - 1) = q"
proof -
  from assms(1) obtain t1 t2 where t1: "t1 \<in> set (one (\<lambda>r. r = of_char q) s t)"
    and t2: "t2 \<in> set (run body s t1)" and u: "u \<in> set (one (\<lambda>r. r = of_char q) s t2)"
    by auto
  from one_lit [OF t1 assms(2)] have a: "s ! fst t = q" "fst t1 = Suc (fst t)" by simp_all
  from one_lit [OF u assms(2)] have b: "fst t2 < length s" "s ! fst t2 = q" "fst u = Suc (fst t2)"
    by simp_all
  from run_mono [OF t2] have "fst t1 \<le> fst t2" .
  with a b show ?thesis by simp
qed

lemma singleQuoted_span:
  "u \<in> set (run singleQuoted s t) \<Longrightarrow>
   fst t + 2 \<le> fst u \<and> fst u \<le> length s \<and> s ! fst t = squote \<and> s ! (fst u - 1) = squote"
  unfolding singleQuoted_def by (rule delimited_span [OF _ ascii_quotes(1)])

lemma doubleQuoted_span:
  "u \<in> set (run doubleQuoted s t) \<Longrightarrow>
   fst t + 2 \<le> fst u \<and> fst u \<le> length s \<and> s ! fst t = dquote \<and> s ! (fst u - 1) = dquote"
  unfolding doubleQuoted_def by (rule delimited_span [OF _ ascii_quotes(2)])

lemma stringLiteral_span:
  "u \<in> set (run stringLiteralPattern s t) \<Longrightarrow> quotedSpan s (fst t) (fst u)"
  by (auto simp: stringLiteralPattern_def quotedSpan_def dest!: singleQuoted_span doubleQuoted_span)

lemma jestMock_group_span:
  assumes "u \<in> set (run (Alt singleQuoted (Seq doubleQuoted (Star True (Lit CHR '','')))) s t)"
  shows "quotedSpan s (fst t) (fst u)"
proof -
  from assms consider "u \<in> set (run singleQuoted s t)"
    | t2 where "t2 \<in> set (run doubleQuoted s t)" "u \<in> set (run (Star True (Lit CHR '','')) s t2)"
    by auto
  then show ?thesis
  proof cases
    case 1
    from singleQuoted_span [OF this] show ?thesis by (simp add: quotedSpan_def)
  next
    case 2
    from doubleQuoted_span [OF 2(1)] have d: "fst t + 2 \<le> fst t2" "fst t2 \<le> length s"
      "s ! fst t = dquote" by simp_all
    from run_mono [OF 2(2)] run_le_length [OF 2(2) d(2)] d show ?thesis
      by (simp add: quotedSpan_def)
  qed
qed

text \<open>
  A property \<open>P\<close> of spans that every group of a pattern guarantees: whatever
  the body of the group \<open>i\<close> matches, from offset \<open>a\<close> to offset \<open>b\<close>, has
  \<open>P i a b\<close>. Then every span that a thread has captured has it.
\<close>

primrec groupsHave :: "(nat \<Rightarrow> nat \<Rightarrow> nat \<Rightarrow> bool) \<Rightarrow> string \<Rightarrow> regex \<Rightarrow> bool" where
  "groupsHave P s (Lit c) = True"
| "groupsHave P s AnyNotNL = True"
| "groupsHave P s Space = True"
| "groupsHave P s BeginLine = True"
| "groupsHave P s EmptyMatch = True"
| "groupsHave P s NoMatch = True"
| "groupsHave P s (Seq a b) = (groupsHave P s a \<and> groupsHave P s b)"
| "groupsHave P s (Alt a b) = (groupsHave P s a \<and> groupsHave P s b)"
| "groupsHave P s (Star g a) = groupsHave P s a"
| "groupsHave P s (Quest g a) = groupsHave P s a"
| "groupsHave P s (Cap i a) =
     (groupsHave P s a \<and> (\<forall>t u. u \<in> set (run a s t) \<longrightarrow> P i (fst t) (fst u)))"

definition capsHave :: "(nat \<Rightarrow> nat \<Rightarrow> nat \<Rightarrow> bool) \<Rightarrow> span option list \<Rightarrow> bool" where
  "capsHave P cs = (\<forall>i < length cs. \<forall>a b. cs ! i = Some (a, b) \<longrightarrow> P i a b)"

lemma capsHave_update:
  assumes "capsHave P cs" "P i a b"
  shows "capsHave P (cs[i := Some (a, b)])"
  unfolding capsHave_def
proof (intro allI impI)
  fix j a' b'
  assume j: "j < length (cs[i := Some (a, b)])" and eq: "cs[i := Some (a, b)] ! j = Some (a', b')"
  show "P j a' b'"
  proof (cases "j = i")
    case True
    with j eq assms(2) show ?thesis by simp
  next
    case False
    with j eq assms(1) show ?thesis by (simp add: capsHave_def)
  qed
qed

lemma run_capsHave:
  "groupsHave P s r \<Longrightarrow> t' \<in> set (run r s t) \<Longrightarrow> capsHave P (snd t) \<Longrightarrow> capsHave P (snd t')"
proof (induction r arbitrary: t t')
  case (Star g r)
  from Star.prems have mem: "t' \<in> set (star_loop (run r s) g (length s) [Explore t] [])"
    by simp
  show ?case
  proof (rule star_loop_invariant [where Q = "\<lambda>u. capsHave P (snd u)", OF _ _ mem])
    fix u u' assume "capsHave P (snd u)" "u' \<in> set (run r s u)"
    with Star.IH [of u' u] Star.prems(1) show "capsHave P (snd u')" by simp
  next
    fix w assume "w \<in> set [Explore t]"
    with Star.prems show "capsHave P (snd (thread_of w))" by simp
  qed
next
  case (Cap i r)
  from Cap.prems(2) obtain u where u: "u \<in> set (run r s t)"
    and t': "t' = (fst u, (snd u)[i := Some (fst t, fst u)])"
    by auto
  from Cap.prems(1) [unfolded groupsHave.simps] u have "P i (fst t) (fst u)" by blast
  moreover from Cap.IH [OF _ u Cap.prems(3)] Cap.prems(1) have "capsHave P (snd u)" by simp
  ultimately show ?case by (simp add: t' capsHave_update)
qed (fastforce dest: one_bounds split: if_splits)+

lemma groupsHave_seqs: "list_all (groupsHave P s) rs \<Longrightarrow> groupsHave P s (seqs rs)"
  by (induction rs rule: seqs.induct) auto

lemma groupsHave_alts: "list_all (groupsHave P s) rs \<Longrightarrow> groupsHave P s (alts rs)"
  by (induction rs rule: alts.induct) auto

lemma groupsHave_lits: "groupsHave P s (lits cs)"
  unfolding lits_def by (rule groupsHave_seqs) (simp add: list_all_iff)

lemma groupsHave_singleQuoted: "groupsHave P s singleQuoted"
  by (simp add: singleQuoted_def charactersPattern_def Plus_def)

lemma groupsHave_doubleQuoted: "groupsHave P s doubleQuoted"
  by (simp add: doubleQuoted_def charactersPattern_def Plus_def)

lemma groupsHave_literal_group:
  "groupsHave (\<lambda>i. quotedSpan s) s (Cap i stringLiteralPattern)"
proof -
  have "groupsHave (\<lambda>i. quotedSpan s) s stringLiteralPattern"
    by (simp add: stringLiteralPattern_def groupsHave_singleQuoted groupsHave_doubleQuoted)
  moreover have "\<forall>t u. u \<in> set (run stringLiteralPattern s t) \<longrightarrow> quotedSpan s (fst t) (fst u)"
    using stringLiteral_span by blast
  ultimately show ?thesis by (simp only: groupsHave.simps simp_thms)
qed

lemma groupsHave_jestMock_group:
  "groupsHave (\<lambda>i. quotedSpan s) s
     (Cap i (Alt singleQuoted (Seq doubleQuoted (Star True (Lit CHR '','')))))"
proof -
  have "groupsHave (\<lambda>i. quotedSpan s) s (Alt singleQuoted (Seq doubleQuoted (Star True (Lit CHR '',''))))"
    by (simp add: groupsHave_singleQuoted groupsHave_doubleQuoted)
  moreover have "\<forall>t u. u \<in> set (run (Alt singleQuoted (Seq doubleQuoted (Star True (Lit CHR '','')))) s t)
                   \<longrightarrow> quotedSpan s (fst t) (fst u)"
    using jestMock_group_span by blast
  ultimately show ?thesis by (simp only: groupsHave.simps simp_thms)
qed

lemma groupsHave_constPrefix: "groupsHave P s constPrefix"
  by (simp add: constPrefix_def charactersPattern_def Plus_def groupsHave_lits)

lemma groupsHave_fromClause: "groupsHave P s fromClause"
  by (simp add: fromClause_def Plus_def groupsHave_lits)

lemma groupsHave_jsImportPattern: "groupsHave (\<lambda>i. quotedSpan s) s jsImportPattern"
  unfolding jsImportPattern_def importPattern_def requirePattern_def exportPattern_def
    jestMockPattern_def jestRequireActualPattern_def requireResolvePattern_def
    jestCreateMockFromModulePattern_def
  by (intro groupsHave_alts groupsHave_seqs)
     (simp add: groupsHave_seqs groupsHave_lits groupsHave_constPrefix groupsHave_fromClause
                groupsHave_literal_group groupsHave_jestMock_group
           del: groupsHave.simps(11))

lemma capsHave_init: "capsHave P (replicate n None)"
  by (simp add: capsHave_def)

text \<open>
  A match of \<open>doExecute\<close> is the first thread of the search at the offset where
  it begins, and a match of \<open>allMatches\<close> is a match of \<open>doExecute\<close>.
\<close>

lemma doExecute_thread:
  "doExecute re s pos = Some ((b, e), m) \<Longrightarrow>
   \<exists>t ts. run re s (b, replicate (Suc (NumSubexp re)) None) = t # ts
          \<and> e = fst t \<and> m = (snd t)[0 := Some (b, e)]"
proof (induction re s pos rule: doExecute.induct)
  case (1 re s pos)
  show ?case
  proof (cases "run re s (pos, replicate (Suc (NumSubexp re)) None)")
    case Nil
    with "1.prems" obtain r w where st: "step s pos = Some (r, w)"
      and ex: "doExecute re s (pos + w) = Some ((b, e), m)"
      by (subst (asm) doExecute.simps) (auto split: option.splits)
    from "1.IH" [OF Nil st refl ex] show ?thesis .
  next
    case (Cons t ts)
    with "1.prems" show ?thesis
      by (subst (asm) doExecute.simps) auto
  qed
qed

lemma allMatches_doExecute:
  "m \<in> set (allMatches re s n i pos prev) \<Longrightarrow> \<exists>p b e. doExecute re s p = Some ((b, e), m)"
proof (induction re s n i pos prev rule: allMatches.induct)
  case (1 re s n i pos prev)
  show ?case
  proof (cases "i < n \<and> pos \<le> length s")
    case False
    with "1.prems" show ?thesis by (simp add: allMatches_stop)
  next
    case True
    show ?thesis
    proof (cases "doExecute re s pos")
      case None
      with "1.prems" show ?thesis by (simp add: allMatches_none)
    next
      case (Some res)
      obtain b e m0 where res: "res = ((b, e), m0)" by (cases res) auto
      note ex = Some [unfolded res]
      note unf = allMatches_some [OF conjunct1 [OF True] conjunct2 [OF True] ex]
      have pos': "nextPos s pos = (case step s pos of Some (r, w) \<Rightarrow> pos + w | None \<Rightarrow> length s + 1)"
        by (simp add: nextPos_def)
      from "1.prems" consider "m = m0"
        | "e \<noteq> pos" "m \<in> set (allMatches re s n (i + 1) e (Some e))"
        | "e = pos" "Some b = prev" "m \<in> set (allMatches re s n i (nextPos s pos) (Some e))"
        | "e = pos" "Some b \<noteq> prev" "m \<in> set (allMatches re s n (i + 1) (nextPos s pos) (Some e))"
        by (auto simp: unf split: if_splits)
      then show ?thesis
      proof cases
        case 1
        with ex show ?thesis by blast
      next
        case 2
        from "1.IH"(3) [OF True ex refl refl 2] show ?thesis .
      next
        case 3
        from "1.IH"(1) [OF True ex refl refl 3(1) pos' 3(2,3)] show ?thesis .
      next
        case 4
        from "1.IH"(2) [OF True ex refl refl 4(1) pos' 4(2,3)] show ?thesis .
      qed
    qed
  qed
qed

lemma FindAll_thread:
  assumes "m \<in> set (FindAllSubmatchIndex re s)"
  shows "\<exists>b t. t \<in> set (run re s (b, replicate (Suc (NumSubexp re)) None))
           \<and> m = (snd t)[0 := Some (b, fst t)]"
proof -
  from assms obtain p b e where "doExecute re s p = Some ((b, e), m)"
    unfolding FindAllSubmatchIndex_def by (blast dest: allMatches_doExecute)
  from doExecute_thread [OF this] show ?thesis by (metis list.set_intros(1))
qed

text \<open>Every capture of a match of the import pattern is the span of a quoted literal.\<close>

lemma captures_quoted:
  assumes m: "m \<in> set (FindAllSubmatchIndex jsImportPattern data)"
    and k: "1 \<le> k" "k \<le> 7" and cap: "m ! k = Some (a, b)"
  shows "quotedSpan data a b"
proof -
  from FindAll_thread [OF m] obtain p t where
    t: "t \<in> set (run jsImportPattern data (p, replicate (Suc (NumSubexp jsImportPattern)) None))"
    and mt: "m = (snd t)[0 := Some (p, fst t)]"
    by blast
  have ch: "capsHave (\<lambda>i. quotedSpan data) (snd t)"
    by (rule run_capsHave [OF groupsHave_jsImportPattern t]) (simp only: snd_conv capsHave_init)
  from run_length_caps [OF t] have len: "length (snd t) = 8"
    by (simp add: NumSubexp_jsImportPattern)
  from cap k mt have "snd t ! k = Some (a, b)" by simp
  moreover from k len have "k < length (snd t)" by simp
  ultimately show ?thesis using ch unfolding capsHave_def by blast
qed

lemma unquoteImportString_no_panic:
  "2 \<le> length (slice buf sp) \<Longrightarrow> snd (unquoteImportString buf sp) \<noteq> Inl SliceBoundsOutOfRange"
  by (auto simp: unquoteImportString_def unquoteBuffer_def Let_def split: option.splits)

lemma requote_fresh: "requote q = Some fresh \<Longrightarrow> 2 \<le> length fresh \<and> fresh ! 0 = dquote"
  by (auto simp: requote_def Let_def split: if_splits)

lemma wrapError_panic: "wrapError lit e = SliceBoundsOutOfRange \<longleftrightarrow> e = SliceBoundsOutOfRange"
  by (cases e) simp_all

lemma outcome_no_panic:
  "(\<And>m k sp. m \<in> set ms \<Longrightarrow> matchKind m = Some (k, sp) \<Longrightarrow> 2 \<le> length (slice data sp)) \<Longrightarrow>
   outcome lw data ms acc \<noteq> Inl SliceBoundsOutOfRange"
proof (induction ms arbitrary: acc)
  case Nil
  then show ?case by simp
next
  case (Cons m ms)
  have ih: "outcome lw data ms acc' \<noteq> Inl SliceBoundsOutOfRange" for acc'
    by (rule Cons.IH) (use Cons.prems in auto)
  show ?case
  proof (cases "matchKind m")
    case None
    with ih show ?thesis by simp
  next
    case (Some ksp)
    obtain k sp where ksp: "ksp = (k, sp)" by (cases ksp) auto
    from Cons.prems [of m k sp] Some ksp have "2 \<le> length (slice data sp)" by simp
    from unquoteImportString_no_panic [of "slice data sp" "(0, length (slice data sp))"] this
    have "unquoted (slice data sp) \<noteq> Inl SliceBoundsOutOfRange"
      by (simp add: unquoted_def)
    with Some ksp ih show ?thesis
      by (auto simp: wrapError_panic split: sum.splits)
  qed
qed

lemma groupOf_range: "1 \<le> groupOf k \<and> groupOf k \<le> 7"
  by (cases k)
     (simp_all add: IMPORT_def REQUIRE_def EXPORT_def JEST_MOCK_def JEST_REQUIRE_ACTUAL_def
                    REQUIRE_RESOLVE_def JEST_CREATE_MOCK_FROM_MODULE_def)

lemma ParseJS_no_panic: "ParseJS lw data \<noteq> Inl SliceBoundsOutOfRange"
proof -
  have "outcome lw data (FindAllSubmatchIndex jsImportPattern data) [] \<noteq> Inl SliceBoundsOutOfRange"
  proof (rule outcome_no_panic)
    fix m k sp
    assume m: "m \<in> set (FindAllSubmatchIndex jsImportPattern data)"
      and mk: "matchKind m = Some (k, sp)"
    obtain a b where sp: "sp = (a, b)" by (cases sp) auto
    from mk have "m ! groupOf k = Some (a, b)"
      unfolding matchKind_def sp by (rule firstCaptured_nth)
    from captures_quoted [OF m _ _ this] groupOf_range [of k]
    have "quotedSpan data a b" by simp
    then have "a + 2 \<le> b" "b \<le> length data" by (simp_all add: quotedSpan_def)
    then show "2 \<le> length (slice data sp)"
      unfolding sp by (simp add: length_slice)
  qed
  then show ?thesis by (auto simp: ParseJS_outcome split: sum.splits)
qed

lemma eval_require_x_match:
  "FindAllSubmatchIndex jsImportPattern ''require('x')''
     = [[Some (0, 12), None, Some (8, 11), None, None, None, None, None]]"
  by code_simp

text \<open>
  C9. Every capture of every match that the compiled pattern produces, in any
  of its seven groups, is at least two bytes long, lies inside the input and
  begins with a quote character. So the slice expression of line 95 is in
  bounds on whatever buffer of the input's length the unquoter is called with,
  the buffer that lines 105 to 107 index has at least two bytes, and
  \<open>ParseJS\<close> never panics on a slice out of range.
\<close>

theorem C9_captures_in_bounds:
  "(\<forall>data m k a b.
      m \<in> set (FindAllSubmatchIndex jsImportPattern data) \<longrightarrow> 1 \<le> k \<longrightarrow> k \<le> 7 \<longrightarrow>
      m ! k = Some (a, b) \<longrightarrow>
        a + 2 \<le> b \<and> b \<le> length data \<and> (data ! a = squote \<or> data ! a = dquote) \<and>
        (\<forall>buf. length buf = length data \<longrightarrow>
           snd (unquoteImportString buf (a, b)) \<noteq> Inl SliceBoundsOutOfRange) \<and>
        (\<forall>fresh. requote (slice data (a, b)) = Some fresh \<longrightarrow> 2 \<le> length fresh))
   \<and> (\<forall>data. ParseJS unicodeLower data \<noteq> Inl SliceBoundsOutOfRange)"
proof (intro conjI allI impI)
  fix data m k a b
  assume "m \<in> set (FindAllSubmatchIndex jsImportPattern data)" "1 \<le> k" "k \<le> 7"
    "m ! k = Some (a, b)"
  then have q: "quotedSpan data a b" by (rule captures_quoted)
  then show "a + 2 \<le> b" "b \<le> length data" "data ! a = squote \<or> data ! a = dquote"
    by (simp_all add: quotedSpan_def)
  {
    fix buf :: string
    assume "length buf = length data"
    moreover from q have "a + 2 \<le> b" "b \<le> length data" by (simp_all add: quotedSpan_def)
    ultimately have "2 \<le> length (slice buf (a, b))" by (simp add: length_slice)
    then show "snd (unquoteImportString buf (a, b)) \<noteq> Inl SliceBoundsOutOfRange"
      by (rule unquoteImportString_no_panic)
  }
  {
    fix fresh
    assume "requote (slice data (a, b)) = Some fresh"
    then show "2 \<le> length fresh" by (simp add: requote_fresh)
  }
next
  fix data
  show "ParseJS unicodeLower data \<noteq> Inl SliceBoundsOutOfRange" by (rule ParseJS_no_panic)
qed

theorem C9_captures_in_bounds_witness:
  "[Some (0, 12), None, Some (8, 11), None, None, None, None, None]
      \<in> set (FindAllSubmatchIndex jsImportPattern ''require('x')'')
   \<and> (8::nat) + 2 \<le> 11 \<and> (11::nat) \<le> length ''require('x')''
   \<and> (''require('x')'' ! 8 = squote \<or> ''require('x')'' ! 8 = dquote)"
proof -
  have m: "[Some (0, 12), None, Some (8, 11), None, None, None, None, None]
             \<in> set (FindAllSubmatchIndex jsImportPattern ''require('x')'')"
    by (simp add: eval_require_x_match)
  have k: "(1::nat) \<le> 2" "(2::nat) \<le> 7"
    "[Some (0, 12), None, Some (8, 11), None, None, None, None, None] ! 2 = Some (8::nat, 11::nat)"
    by simp_all
  from C9_captures_in_bounds [of "\<lambda>s. s", THEN conjunct1, rule_format, OF m k] m
  show ?thesis by blast
qed

end
